theory Spec2Isabelle
  imports Main "HOL-Library.Word" "HOL-Library.AList" "HOL-Library.Monad_Syntax"
begin

unbundle bit_operations_syntax

section \<open>Bytes, slices and fixed-width reads\<close>

text \<open>
  A Python \<open>bytes\<close> value is a list of 8-bit words. Values read by \<open>struct.unpack_from\<close>
  keep their width (\<open>16 word\<close>, \<open>32 word\<close>): the decoders only shift, mask and XOR them,
  which never leaves the width. Where the source adds or compares them as Python integers
  they are read as \<open>int\<close> with \<open>uint\<close>.
\<close>

type_synonym byte = "8 word"
type_synonym bytes = "byte list"

text \<open>\<open>data[a:b]\<close> for \<open>0 \<le> a \<le> b\<close>: a slice is cut to the buffer, it never raises.\<close>

definition slice :: "bytes \<Rightarrow> nat \<Rightarrow> nat \<Rightarrow> bytes" where
  "slice data a b = take (b - a) (drop a data)"

text \<open>\<open>range(0, n, step)\<close>.\<close>

definition range_step :: "nat \<Rightarrow> nat \<Rightarrow> nat list" where
  "range_step n step = map (\<lambda>k. k * step) [0..<(n + step - 1) div step]"

text \<open>The value of the bytes at an offset, little-endian and big-endian.\<close>

definition le16 :: "bytes \<Rightarrow> nat \<Rightarrow> 16 word" where
  "le16 d off = ucast (d ! off) OR push_bit 8 (ucast (d ! (off + 1)))"

definition le32 :: "bytes \<Rightarrow> nat \<Rightarrow> 32 word" where
  "le32 d off = ucast (d ! off) OR push_bit 8 (ucast (d ! (off + 1)))
     OR push_bit 16 (ucast (d ! (off + 2))) OR push_bit 24 (ucast (d ! (off + 3)))"

definition be16 :: "bytes \<Rightarrow> nat \<Rightarrow> 16 word" where
  "be16 d off = push_bit 8 (ucast (d ! off)) OR ucast (d ! (off + 1))"

definition be32 :: "bytes \<Rightarrow> nat \<Rightarrow> 32 word" where
  "be32 d off = push_bit 24 (ucast (d ! off)) OR push_bit 16 (ucast (d ! (off + 1)))
     OR push_bit 8 (ucast (d ! (off + 2))) OR ucast (d ! (off + 3))"

text \<open>
  \<open>struct.unpack_from(fmt, data, off)[0]\<close> raises \<open>struct.error\<close> when the buffer ends
  before the field does; \<open>data[i]\<close> raises \<open>IndexError\<close>. Both are \<open>None\<close> here.
\<close>

definition unpack_le16 :: "bytes \<Rightarrow> nat \<Rightarrow> 16 word option" where
  "unpack_le16 d off = (if off + 2 \<le> length d then Some (le16 d off) else None)"

definition unpack_le32 :: "bytes \<Rightarrow> nat \<Rightarrow> 32 word option" where
  "unpack_le32 d off = (if off + 4 \<le> length d then Some (le32 d off) else None)"

definition unpack_be16 :: "bytes \<Rightarrow> nat \<Rightarrow> 16 word option" where
  "unpack_be16 d off = (if off + 2 \<le> length d then Some (be16 d off) else None)"

definition unpack_be32 :: "bytes \<Rightarrow> nat \<Rightarrow> 32 word option" where
  "unpack_be32 d off = (if off + 4 \<le> length d then Some (be32 d off) else None)"

definition index :: "bytes \<Rightarrow> nat \<Rightarrow> byte option" where
  "index d i = (if i < length d then Some (d ! i) else None)"

text \<open>\<open>struct.pack_into('<I', buf, i, w)\<close>, for a buffer that holds the four bytes.\<close>

definition byte_of :: "32 word \<Rightarrow> nat \<Rightarrow> byte" where
  "byte_of w m = ucast (drop_bit (8 * m) w)"

definition pack_into_le32 :: "bytes \<Rightarrow> nat \<Rightarrow> 32 word \<Rightarrow> bytes" where
  "pack_into_le32 buf i w =
     buf[i := byte_of w 0, i + 1 := byte_of w 1, i + 2 := byte_of w 2, i + 3 := byte_of w 3]"

section \<open>Constants of the cartridge format\<close>

abbreviation GBA_SAVE_SIZE :: nat where "GBA_SAVE_SIZE \<equiv> 0x20000"
abbreviation GBA_SECTION_SIZE :: nat where "GBA_SECTION_SIZE \<equiv> 0x1000"
abbreviation GBA_SLOT_SIZE :: nat where "GBA_SLOT_SIZE \<equiv> 0xE000"
abbreviation GBA_SECTION_COUNT :: nat where "GBA_SECTION_COUNT \<equiv> 14"
abbreviation GBA_FOOTER_OFFSET :: nat where "GBA_FOOTER_OFFSET \<equiv> 0xFF8"
abbreviation GBA_SECTION_ID_OFF :: nat where "GBA_SECTION_ID_OFF \<equiv> 0xFF8"
abbreviation GBA_CHECKSUM_OFF :: nat where "GBA_CHECKSUM_OFF \<equiv> 0xFFA"
abbreviation GBA_SAVE_INDEX_OFF :: nat where "GBA_SAVE_INDEX_OFF \<equiv> 0xFFC"

abbreviation PK3_SIZE :: nat where "PK3_SIZE \<equiv> 100"
abbreviation PK3_HEADER_SIZE :: nat where "PK3_HEADER_SIZE \<equiv> 32"
abbreviation PK3_DATA_SIZE :: nat where "PK3_DATA_SIZE \<equiv> 48"
abbreviation PK3_STATUS_SIZE :: nat where "PK3_STATUS_SIZE \<equiv> 20"

abbreviation SECTION_PC_BUFFER_A :: nat where "SECTION_PC_BUFFER_A \<equiv> 5"
abbreviation PARTY_COUNT_OFFSET :: nat where "PARTY_COUNT_OFFSET \<equiv> 0x234"
abbreviation PARTY_DATA_OFFSET :: nat where "PARTY_DATA_OFFSET \<equiv> 0x238"
abbreviation PC_BOX_COUNT :: nat where "PC_BOX_COUNT \<equiv> 14"
abbreviation PC_BOX_SIZE :: nat where "PC_BOX_SIZE \<equiv> 30"
abbreviation PC_POKEMON_SIZE :: nat where "PC_POKEMON_SIZE \<equiv> 80"

definition SUBSTRUCTURE_ORDER :: "string list" where
  "SUBSTRUCTURE_ORDER =
    [''GAEM'', ''GAME'', ''GEAM'', ''GEMA'', ''GMAE'', ''GMEA'',
     ''AGEM'', ''AGME'', ''AEGM'', ''AEMG'', ''AMGE'', ''AMEG'',
     ''EGAM'', ''EGMA'', ''EAGM'', ''EAMG'', ''EMGA'', ''EMAG'',
     ''MGAE'', ''MGEA'', ''MAGE'', ''MAEG'', ''MEGA'', ''MEAG'']"

section \<open>The record cipher\<close>

text \<open>
  \<open>_decrypt_pk3_data\<close>: a zeroed buffer of the input's length; every whole 32-bit
  little-endian word of the input is XORed with the key and written at its own offset.
  The key is the 32-bit value the caller computes.
\<close>

definition decrypt_pk3_data :: "bytes \<Rightarrow> 32 word \<Rightarrow> bytes" where
  "decrypt_pk3_data encrypted key =
     fold (\<lambda>i decrypted.
             if i + 4 \<le> length encrypted
             then pack_into_le32 decrypted i (le32 encrypted i XOR key)
             else decrypted)
          (range_step (length encrypted) 4)
          (replicate (length encrypted) 0)"

text \<open>
  The header fields of \<open>_parse_pk3\<close> that feed the cipher and the shuffle: the
  personality value at offset 0, the combined owner-id word at offset 4, the key, the
  48 encrypted bytes after the 32-byte header, and the decrypted payload.
\<close>

definition pk3_key :: "32 word \<Rightarrow> 32 word \<Rightarrow> 32 word" where
  "pk3_key personality_value ot_id_full = personality_value XOR ot_id_full"

definition pk3_encrypted :: "bytes \<Rightarrow> bytes" where
  "pk3_encrypted data = slice data PK3_HEADER_SIZE (PK3_HEADER_SIZE + PK3_DATA_SIZE)"

text \<open>
  The substructure map of \<open>_parse_pk3\<close>: the letter at position \<open>i\<close> of the order
  gets the bytes \<open>decrypted[i * 12:(i + 1) * 12]\<close>; a letter the order lacks reads as
  twelve zero bytes (\<open>sub_map.get(letter, bytes(12))\<close>).
\<close>

definition sub_map :: "string \<Rightarrow> bytes \<Rightarrow> (char \<times> bytes) list" where
  "sub_map order decrypted =
     fold (\<lambda>(i, letter) m. AList.update letter (slice decrypted (i * 12) ((i + 1) * 12)) m)
          (enumerate 0 order) []"

definition sub_get :: "(char \<times> bytes) list \<Rightarrow> char \<Rightarrow> bytes" where
  "sub_get m letter = (case map_of m letter of Some b \<Rightarrow> b | None \<Rightarrow> replicate 12 0)"

definition substructure_order :: "32 word \<Rightarrow> string" where
  "substructure_order personality_value = SUBSTRUCTURE_ORDER ! (unat personality_value mod 24)"


section \<open>Formatting integers\<close>

text \<open>\<open>str(n)\<close> for a Python integer, as the f-strings of the source print it.\<close>

definition digit_char :: "nat \<Rightarrow> char" where
  "digit_char n = ''0123456789'' ! n"

fun str_nat :: "nat \<Rightarrow> string" where
  "str_nat n = (if n < 10 then [digit_char n] else str_nat (n div 10) @ [digit_char (n mod 10)])"

declare str_nat.simps [simp del]


section \<open>Field helpers of the record codec\<close>

definition NATURES :: "string list" where
  "NATURES =
    [''Hardy'', ''Lonely'', ''Brave'', ''Adamant'', ''Naughty'',
     ''Bold'', ''Docile'', ''Relaxed'', ''Impish'', ''Lax'',
     ''Timid'', ''Hasty'', ''Serious'', ''Jolly'', ''Naive'',
     ''Modest'', ''Mild'', ''Quiet'', ''Bashful'', ''Rash'',
     ''Calm'', ''Gentle'', ''Sassy'', ''Careful'', ''Quirky'']"

text \<open>
  \<open>_exp_to_level\<close> takes \<open>int(experience ** (1/3))\<close>, a floating-point cube root cut to
  an integer. The float computation is the parameter \<open>cbrt\<close>; the clamp around it is
  the source's.
\<close>

definition exp_to_level :: "(int \<Rightarrow> int) \<Rightarrow> int \<Rightarrow> int \<Rightarrow> int" where
  "exp_to_level cbrt species experience =
     (if experience \<le> 0 then 1 else max 1 (min 100 (cbrt experience)))"

definition calc_gender :: "int \<Rightarrow> 32 word \<Rightarrow> string" where
  "calc_gender species pv =
     (let pv_low = pv AND 0xFF
      in if pv_low < 0x7F then ''male''
         else if pv_low = 0xFF then ''unknown''
         else ''female'')"

definition origins_to_game :: "nat \<Rightarrow> string" where
  "origins_to_game game_id =
     (if game_id = 1 then ''Sapphire'' else if game_id = 2 then ''Ruby''
      else if game_id = 3 then ''Emerald'' else if game_id = 4 then ''FireRed''
      else if game_id = 5 then ''LeafGreen'' else if game_id = 15 then ''Colosseum/XD''
      else ''Game '' @ str_nat game_id)"

section \<open>The link-cable compatibility checker\<close>



section \<open>The decoded cartridge record\<close>

text \<open>
  The fields of the dataclass \<open>PK3Pokemon\<close>, as Python integers, booleans and strings.
  The names looked up in the species, move, item and character tables (\<open>species_name\<close>,
  \<open>move_names\<close>, \<open>item_name\<close>, \<open>nickname\<close>, \<open>ot_name\<close>) are left out: each is a
  dictionary lookup with a default or a bounded loop, and none can fail.
\<close>

record PK3Pokemon =
  personality_value :: int
  ot_id :: int
  ot_secret_id :: int
  language :: int
  markings :: int
  checksum :: int
  species_id :: int
  item_id :: int
  experience :: int
  pp_bonuses :: int
  friendship :: int
  unknown_growth :: int
  move1_id :: int
  move2_id :: int
  move3_id :: int
  move4_id :: int
  move1_pp :: int
  move2_pp :: int
  move3_pp :: int
  move4_pp :: int
  hp_ev :: int
  atk_ev :: int
  def_ev :: int
  spe_ev :: int
  spa_ev :: int
  spd_ev :: int
  coolness :: int
  beauty :: int
  cuteness :: int
  smartness :: int
  toughness :: int
  feel :: int
  pokerus :: int
  met_location :: int
  origins_info :: int
  iv_egg_ability :: int
  ribbons_obedience :: int
  status_condition :: int
  level :: int
  pokerus_days :: int
  current_hp :: int
  total_hp :: int
  attack :: int
  defense :: int
  speed :: int
  sp_attack :: int
  sp_defense :: int
  nature :: string
  is_shiny :: bool
  is_egg :: bool
  gender :: string
  ability_slot :: int
  hp_iv :: int
  atk_iv :: int
  def_iv :: int
  spe_iv :: int
  spa_iv :: int
  spd_iv :: int
  met_game :: string
  met_level :: int
  is_fateful :: bool

datatype TransferCompatibility = COMPATIBLE | INCOMPATIBLE | REQUIRES_PURIFY | VERSION_LOCKED



section \<open>Decoding one cartridge record\<close>

text \<open>
  \<open>_parse_pk3\<close>. Every \<open>struct.error\<close> and \<open>IndexError\<close> is caught by the source and
  turned into an absent record; here a failed read is \<open>None\<close> and the option monad
  carries it to the result. \<open>SUBSTRUCTURE_ORDER[order_idx]\<close> and \<open>NATURES[pv % 25]\<close>
  index tables of 24 and 25 entries with a remainder, so they are plain \<open>!\<close>.
\<close>

definition parse_pk3 :: "(int \<Rightarrow> int) \<Rightarrow> bytes \<Rightarrow> PK3Pokemon option" where
  "parse_pk3 cbrt data =
    (if length data < PK3_HEADER_SIZE then None
     else do {
       personality_value \<leftarrow> unpack_le32 data 0x00;
       ot_id_full \<leftarrow> unpack_le32 data 0x04;
       let ot_id = ot_id_full AND 0xFFFF;
       let ot_secret_id = drop_bit 16 ot_id_full AND 0xFFFF;
       let language = (if length data > 0x12 then uint (data ! 0x12) else 2);
       let markings = (if length data > 0x1B then uint (data ! 0x1B) else 0);
       checksum \<leftarrow> (if length data > 0x1E then unpack_le16 data 0x1C else Some 0);
       if length data < PK3_HEADER_SIZE + PK3_DATA_SIZE then None
       else do {
         let encrypted = pk3_encrypted data;
         let key = pk3_key personality_value ot_id_full;
         let decrypted = decrypt_pk3_data encrypted key;
         let order = substructure_order personality_value;
         let subs = sub_map order decrypted;
         let g = sub_get subs CHR ''G'';
         species_id \<leftarrow> unpack_le16 g 0;
         item_id \<leftarrow> unpack_le16 g 2;
         experience \<leftarrow> unpack_le32 g 4;
         pp_bonuses \<leftarrow> index g 8;
         friendship \<leftarrow> index g 9;
         unknown_g \<leftarrow> unpack_le16 g 10;
         if species_id = 0 \<or> species_id > 386 then None
         else do {
           let a = sub_get subs CHR ''A'';
           move1_id \<leftarrow> unpack_le16 a 0;
           move2_id \<leftarrow> unpack_le16 a 2;
           move3_id \<leftarrow> unpack_le16 a 4;
           move4_id \<leftarrow> unpack_le16 a 6;
           move1_pp \<leftarrow> index a 8;
           move2_pp \<leftarrow> index a 9;
           move3_pp \<leftarrow> index a 10;
           move4_pp \<leftarrow> index a 11;
           let e = sub_get subs CHR ''E'';
           hp_ev \<leftarrow> index e 0;
           atk_ev \<leftarrow> index e 1;
           def_ev \<leftarrow> index e 2;
           spe_ev \<leftarrow> index e 3;
           spa_ev \<leftarrow> index e 4;
           spd_ev \<leftarrow> index e 5;
           coolness \<leftarrow> index e 6;
           beauty \<leftarrow> index e 7;
           cuteness \<leftarrow> index e 8;
           smartness \<leftarrow> index e 9;
           toughness \<leftarrow> index e 10;
           feel \<leftarrow> index e 11;
           let m = sub_get subs CHR ''M'';
           pokerus \<leftarrow> index m 0;
           met_location \<leftarrow> index m 1;
           origins_info \<leftarrow> unpack_le16 m 2;
           iv_egg_ability \<leftarrow> unpack_le32 m 4;
           ribbons_obedience \<leftarrow> unpack_le32 m 8;
           let status_offset = PK3_HEADER_SIZE + PK3_DATA_SIZE;
           (status_condition, level, pokerus_days, current_hp, total_hp,
            attack, defense, speed, sp_attack, sp_defense) \<leftarrow>
             (if length data \<ge> status_offset + PK3_STATUS_SIZE
              then do {
                let st = slice data status_offset (status_offset + PK3_STATUS_SIZE);
                status_condition \<leftarrow> unpack_le32 st 0;
                level \<leftarrow> index st 4;
                pokerus_days \<leftarrow> index st 5;
                current_hp \<leftarrow> unpack_le16 st 6;
                total_hp \<leftarrow> unpack_le16 st 8;
                attack \<leftarrow> unpack_le16 st 10;
                defense \<leftarrow> unpack_le16 st 12;
                speed \<leftarrow> unpack_le16 st 14;
                sp_attack \<leftarrow> unpack_le16 st 16;
                sp_defense \<leftarrow> unpack_le16 st 18;
                Some (uint status_condition, uint level, uint pokerus_days, uint current_hp,
                      uint total_hp, uint attack, uint defense, uint speed,
                      uint sp_attack, uint sp_defense)
              }
              else Some (0, exp_to_level cbrt (uint species_id) (uint experience),
                         0, 0, 0, 0, 0, 0, 0, 0));
           let nature = NATURES ! (unat personality_value mod 25);
           let hp_iv = drop_bit 0 iv_egg_ability AND 0x1F;
           let atk_iv = drop_bit 5 iv_egg_ability AND 0x1F;
           let def_iv = drop_bit 10 iv_egg_ability AND 0x1F;
           let spe_iv = drop_bit 15 iv_egg_ability AND 0x1F;
           let spa_iv = drop_bit 20 iv_egg_ability AND 0x1F;
           let spd_iv = drop_bit 25 iv_egg_ability AND 0x1F;
           let is_egg = (drop_bit 30 iv_egg_ability AND 1 \<noteq> 0);
           let ability_sl = drop_bit 31 iv_egg_ability AND 1;
           let pv_high = drop_bit 16 personality_value AND 0xFFFF;
           let pv_low = personality_value AND 0xFFFF;
           let shiny_val = ot_id XOR ot_secret_id XOR pv_high XOR pv_low;
           let is_shiny = (shiny_val < 8);
           let gender = calc_gender (uint species_id) personality_value;
           let met_game_id = drop_bit 7 origins_info AND 0xF;
           let met_game = origins_to_game (unat met_game_id);
           let met_level = origins_info AND 0x7F;
           let is_fateful = (drop_bit 31 ribbons_obedience AND 1 \<noteq> 0);
           Some \<lparr>personality_value = uint personality_value,
                 ot_id = uint ot_id, ot_secret_id = uint ot_secret_id,
                 language = language, markings = markings, checksum = uint checksum,
                 species_id = uint species_id, item_id = uint item_id,
                 experience = uint experience, pp_bonuses = uint pp_bonuses,
                 friendship = uint friendship, unknown_growth = uint unknown_g,
                 move1_id = uint move1_id, move2_id = uint move2_id,
                 move3_id = uint move3_id, move4_id = uint move4_id,
                 move1_pp = uint move1_pp, move2_pp = uint move2_pp,
                 move3_pp = uint move3_pp, move4_pp = uint move4_pp,
                 hp_ev = uint hp_ev, atk_ev = uint atk_ev, def_ev = uint def_ev,
                 spe_ev = uint spe_ev, spa_ev = uint spa_ev, spd_ev = uint spd_ev,
                 coolness = uint coolness, beauty = uint beauty, cuteness = uint cuteness,
                 smartness = uint smartness, toughness = uint toughness, feel = uint feel,
                 pokerus = uint pokerus, met_location = uint met_location,
                 origins_info = uint origins_info, iv_egg_ability = uint iv_egg_ability,
                 ribbons_obedience = uint ribbons_obedience,
                 status_condition = status_condition, level = level,
                 pokerus_days = pokerus_days, current_hp = current_hp,
                 total_hp = total_hp, attack = attack, defense = defense,
                 speed = speed, sp_attack = sp_attack, sp_defense = sp_defense,
                 nature = nature, is_shiny = is_shiny, is_egg = is_egg, gender = gender,
                 ability_slot = uint ability_sl,
                 hp_iv = uint hp_iv, atk_iv = uint atk_iv, def_iv = uint def_iv,
                 spe_iv = uint spe_iv, spa_iv = uint spa_iv, spd_iv = uint spd_iv,
                 met_game = met_game, met_level = uint met_level,
                 is_fateful = is_fateful\<rparr>
         }
       }
     })"

text \<open>
  The values \<open>_parse_pk3\<close> holds in its locals \<open>decrypted\<close>, \<open>g\<close> and \<open>species_id\<close>
  for a buffer that reaches the end of the payload.
\<close>

definition pk3_decrypted :: "bytes \<Rightarrow> bytes" where
  "pk3_decrypted data =
     decrypt_pk3_data (pk3_encrypted data) (pk3_key (le32 data 0x00) (le32 data 0x04))"

definition pk3_growth :: "bytes \<Rightarrow> bytes" where
  "pk3_growth data =
     sub_get (sub_map (substructure_order (le32 data 0x00)) (pk3_decrypted data)) CHR ''G''"

definition pk3_species :: "bytes \<Rightarrow> int" where
  "pk3_species data = uint (le16 (pk3_growth data) 0)"

section \<open>Sections and slots of a cartridge save\<close>

text \<open>
  A slot is the dictionary \<open>{section_id: section_data}\<close> that \<open>_parse_slot\<close> builds: an
  association list in insertion order, where storing under a key already present
  replaces its value in place, as a Python \<open>dict\<close> does.
\<close>

type_synonym sections = "(nat \<times> bytes) list"

text \<open>
  The checksum that \<open>_verify_section_checksum\<close> recomputes: the sum, as an unbounded
  integer, of the whole 32-bit little-endian words of the data area (the first \<open>0xFF8\<close>
  bytes), then \<open>((total >> 16) + (total & 0xFFFF)) & 0xFFFF\<close>.
\<close>

definition section_checksum :: "bytes \<Rightarrow> int" where
  "section_checksum section =
     (let data_area = slice section 0 GBA_FOOTER_OFFSET;
          total = fold (\<lambda>i total.
                          if i + 4 \<le> length data_area
                          then total + uint (le32 data_area i)
                          else total)
                       (range_step (length data_area) 4) 0
      in (drop_bit 16 total + (total AND 0xFFFF)) AND 0xFFFF)"

definition verify_section_checksum :: "bytes \<Rightarrow> bool" where
  "verify_section_checksum section =
     (case unpack_le16 section GBA_CHECKSUM_OFF of
        None \<Rightarrow> False
      | Some stored_checksum \<Rightarrow> section_checksum section = uint stored_checksum)"

text \<open>
  \<open>_parse_slot\<close>: the loop over the 14 section positions. A position whose end lies
  beyond the buffer ends the loop (\<open>break\<close>); a footer id above 13 skips the section
  (\<open>continue\<close>). The section is a slice of exactly \<open>0x1000\<close> bytes there, so the read of
  its id at \<open>0xFF8\<close> is in range. The outcome of the checksum test goes to the debug
  log and nowhere else.
\<close>

fun parse_slot_loop :: "bytes \<Rightarrow> nat \<Rightarrow> nat list \<Rightarrow> sections \<Rightarrow> sections" where
  "parse_slot_loop data offset [] sections = sections"
| "parse_slot_loop data offset (i # rest) sections =
     (let section_start = offset + i * GBA_SECTION_SIZE;
          section_end = section_start + GBA_SECTION_SIZE
      in if section_end > length data then sections
         else let section = slice data section_start section_end;
                  section_id = unat (le16 section GBA_SECTION_ID_OFF)
              in if section_id > 13 then parse_slot_loop data offset rest sections
                 else let checksum_logged = verify_section_checksum section
                      in parse_slot_loop data offset rest
                           (AList.update section_id section sections))"

definition parse_slot :: "bytes \<Rightarrow> nat \<Rightarrow> sections option" where
  "parse_slot data offset =
     (let sections = parse_slot_loop data offset [0..<GBA_SECTION_COUNT] []
      in if sections = [] then None else Some sections)"

text \<open>
  The locals of the loop, for position \<open>i\<close> of the slot at an offset: the section bytes
  and the id read from the section's footer.
\<close>

definition slot_section :: "bytes \<Rightarrow> nat \<Rightarrow> nat \<Rightarrow> bytes" where
  "slot_section data offset i =
     slice data (offset + i * GBA_SECTION_SIZE) (offset + i * GBA_SECTION_SIZE + GBA_SECTION_SIZE)"

definition section_id_of :: "bytes \<Rightarrow> nat" where
  "section_id_of section = unat (le16 section GBA_SECTION_ID_OFF)"

definition get_save_index :: "sections \<Rightarrow> int" where
  "get_save_index sections =
     (case map_of sections 0 of
        None \<Rightarrow> - 1
      | Some sec \<Rightarrow>
          (case unpack_le32 sec GBA_SAVE_INDEX_OFF of None \<Rightarrow> - 1 | Some v \<Rightarrow> uint v))"

text \<open>
  \<open>_pick_best_slot\<close> returns one of its two arguments, and \<open>parse_save_file\<close> then asks
  which one it got (\<open>sections is slot_a\<close>). The result here names the argument returned.
\<close>

datatype slot_ref = SlotA | SlotB

definition pick_best_slot ::
    "sections option \<Rightarrow> sections option \<Rightarrow> (slot_ref \<times> sections) option" where
  "pick_best_slot slot_a slot_b =
     (case (slot_a, slot_b) of
        (None, None) \<Rightarrow> None
      | (None, Some b) \<Rightarrow> Some (SlotB, b)
      | (Some a, None) \<Rightarrow> Some (SlotA, a)
      | (Some a, Some b) \<Rightarrow>
          (let idx_a = get_save_index a; idx_b = get_save_index b
           in if idx_a \<ge> idx_b then Some (SlotA, a) else Some (SlotB, b)))"

section \<open>Trainer data, party and boxes\<close>

datatype GBAGame = RUBY | SAPPHIRE | EMERALD | FIRERED | LEAFGREEN | UNKNOWN_GAME
datatype GBARegion = US | EU | JP | UNKNOWN_REGION

definition detect_game :: "sections \<Rightarrow> GBAGame \<times> GBARegion" where
  "detect_game sections =
     (case map_of sections 0 of
        None \<Rightarrow> (UNKNOWN_GAME, UNKNOWN_REGION)
      | Some sec0 \<Rightarrow>
          if length sections = GBA_SECTION_COUNT \<and> length sec0 > 0xAC \<and> sec0 ! 0xAC \<noteq> 0
            then (EMERALD, US)
          else if length sections = GBA_SECTION_COUNT \<and> length sec0 > 0xC5 \<and> sec0 ! 0xC5 \<noteq> 0
            then (FIRERED, US)
          else (RUBY, US))"

text \<open>
  \<open>GBASaveInfo\<close> without its strings (file path, trainer name, game name).
  \<open>bin(badges).count('1')\<close> counts the bits set in the badge byte.
\<close>

record GBASaveInfo =
  game :: GBAGame
  region :: GBARegion
  trainer_id :: int
  secret_id :: int
  play_time_h :: int
  play_time_m :: int
  play_time_s :: int
  money :: int
  badges :: int
  slot_used :: int

definition count_ones :: "byte \<Rightarrow> int" where
  "count_ones b = int (length (filter (bit b) [0..<8]))"

definition parse_trainer_info :: "sections \<Rightarrow> int \<Rightarrow> GBASaveInfo option" where
  "parse_trainer_info sections slot =
     (case map_of sections 0 of
        None \<Rightarrow> None
      | Some sec \<Rightarrow> do {
          tid \<leftarrow> unpack_le16 sec 0x0A;
          sid \<leftarrow> unpack_le16 sec 0x0C;
          play_h \<leftarrow> unpack_le16 sec 0x0E;
          play_m \<leftarrow> index sec 0x10;
          play_s \<leftarrow> index sec 0x11;
          cash \<leftarrow> (if length sec > 0x0294 then unpack_le32 sec 0x0290 else Some 0);
          badge_byte \<leftarrow> (if length sec > 0x0098 then index sec 0x0098 else Some 0);
          let (detected, reg) = detect_game sections;
          Some \<lparr>game = detected, region = reg,
                trainer_id = uint tid, secret_id = uint sid,
                play_time_h = uint play_h, play_time_m = uint play_m,
                play_time_s = uint play_s, money = uint cash,
                badges = count_ones badge_byte, slot_used = slot\<rparr>
        })"

record GBAParty =
  pokemon :: "PK3Pokemon list"
  count :: int

text \<open>
  \<open>_parse_party\<close>: the count is the 32-bit field at \<open>0x234\<close> of section 1, clamped by
  \<open>max(0, min(6, count))\<close>; record \<open>i\<close> is the 100 bytes at \<open>0x238 + 100 * i\<close>. A window
  that would end beyond the section ends the loop.
\<close>

fun party_loop ::
    "(int \<Rightarrow> int) \<Rightarrow> bytes \<Rightarrow> nat list \<Rightarrow> PK3Pokemon list \<Rightarrow> PK3Pokemon list" where
  "party_loop cbrt sec [] acc = acc"
| "party_loop cbrt sec (i # rest) acc =
     (let offset = PARTY_DATA_OFFSET + i * PK3_SIZE
      in if offset + PK3_SIZE > length sec then acc
         else let pk3_data = slice sec offset (offset + PK3_SIZE)
              in case parse_pk3 cbrt pk3_data of
                   None \<Rightarrow> party_loop cbrt sec rest acc
                 | Some poke \<Rightarrow>
                     if species_id poke > 0 then party_loop cbrt sec rest (acc @ [poke])
                     else party_loop cbrt sec rest acc)"

text \<open>
  The locals of the loop for record \<open>i\<close>: the 100-byte window, and the record that is
  appended for it, if any (\<open>if poke and poke.species_id > 0\<close>).
\<close>

definition party_window :: "bytes \<Rightarrow> nat \<Rightarrow> bytes" where
  "party_window sec i =
     slice sec (PARTY_DATA_OFFSET + i * PK3_SIZE) (PARTY_DATA_OFFSET + i * PK3_SIZE + PK3_SIZE)"

definition party_member :: "(int \<Rightarrow> int) \<Rightarrow> bytes \<Rightarrow> PK3Pokemon option" where
  "party_member cbrt pk3_data =
     (case parse_pk3 cbrt pk3_data of
        None \<Rightarrow> None
      | Some poke \<Rightarrow> if species_id poke > 0 then Some poke else None)"

definition party_count :: "bytes \<Rightarrow> int option" where
  "party_count sec =
     (case unpack_le32 sec PARTY_COUNT_OFFSET of
        None \<Rightarrow> None
      | Some c \<Rightarrow> Some (max 0 (min 6 (uint c))))"

definition parse_party :: "(int \<Rightarrow> int) \<Rightarrow> sections \<Rightarrow> GBAParty" where
  "parse_party cbrt sections =
     (case map_of sections 1 of
        None \<Rightarrow> \<lparr>pokemon = [], count = 0\<rparr>
      | Some sec \<Rightarrow>
          (case party_count sec of
             None \<Rightarrow> \<lparr>pokemon = [], count = 0\<rparr>
           | Some n \<Rightarrow>
               (let found = party_loop cbrt sec [0..<nat n] []
                in \<lparr>pokemon = found, count = int (length found)\<rparr>)))"

text \<open>
  \<open>_parse_pc_boxes\<close>, without the box names: the data areas of the sections 5 to 13
  that the slot holds, joined in ascending id; 14 boxes of 30 records of 80 bytes from
  offset 4, each padded with 20 zero bytes before decoding.
\<close>

record GBABox =
  box_index :: nat
  box_pokemon :: "PK3Pokemon list"

fun box_loop ::
    "(int \<Rightarrow> int) \<Rightarrow> bytes \<Rightarrow> nat \<Rightarrow> nat list \<Rightarrow> PK3Pokemon list \<Rightarrow> PK3Pokemon list" where
  "box_loop cbrt pc_data box_idx [] acc = acc"
| "box_loop cbrt pc_data box_idx (slot # rest) acc =
     (let poke_offset = 0x0004 + (box_idx * PC_BOX_SIZE + slot) * PC_POKEMON_SIZE
      in if poke_offset + PC_POKEMON_SIZE > length pc_data then acc
         else let pk3_data = slice pc_data poke_offset (poke_offset + PC_POKEMON_SIZE);
                  pk3_padded = pk3_data @ replicate (PK3_SIZE - PC_POKEMON_SIZE) 0
              in case parse_pk3 cbrt pk3_padded of
                   None \<Rightarrow> box_loop cbrt pc_data box_idx rest acc
                 | Some poke \<Rightarrow>
                     if species_id poke > 0 then box_loop cbrt pc_data box_idx rest (acc @ [poke])
                     else box_loop cbrt pc_data box_idx rest acc)"

definition parse_pc_boxes :: "(int \<Rightarrow> int) \<Rightarrow> sections \<Rightarrow> GBABox list" where
  "parse_pc_boxes cbrt sections =
     (let pc_data = concat (map (\<lambda>section_id.
                                   case map_of sections section_id of
                                     None \<Rightarrow> []
                                   | Some sec \<Rightarrow> slice sec 0 GBA_FOOTER_OFFSET)
                                [SECTION_PC_BUFFER_A..<GBA_SECTION_COUNT])
      in if pc_data = [] then []
         else map (\<lambda>box_idx. \<lparr>box_index = box_idx,
                               box_pokemon = box_loop cbrt pc_data box_idx [0..<PC_BOX_SIZE] []\<rparr>)
                  [0..<PC_BOX_COUNT])"

section \<open>Parsing a cartridge save\<close>

text \<open>
  \<open>parse_save_file\<close> from the bytes it has read. The source returns \<open>None\<close> on each
  failure and logs which one; the error value here is that branch.
\<close>

datatype parse_error = TooSmall | NoValidSlot | NoTrainerInfo

record GBASave =
  info :: GBASaveInfo
  party :: GBAParty
  boxes :: "GBABox list"

definition parse_save_data :: "(int \<Rightarrow> int) \<Rightarrow> bytes \<Rightarrow> parse_error + GBASave" where
  "parse_save_data cbrt data =
     (if length data < GBA_SAVE_SIZE \<and> length data < GBA_SLOT_SIZE then Inl TooSmall
      else let slot_a = parse_slot data 0;
               slot_b = (if length data \<ge> GBA_SAVE_SIZE then parse_slot data GBA_SLOT_SIZE
                         else None)
           in case pick_best_slot slot_a slot_b of
                None \<Rightarrow> Inl NoValidSlot
              | Some (chosen, sections) \<Rightarrow>
                  (let used = (if chosen = SlotA then 0 else 1)
                   in case parse_trainer_info sections used of
                        None \<Rightarrow> Inl NoTrainerInfo
                      | Some trainer \<Rightarrow>
                          Inr \<lparr>info = trainer,
                               party = parse_party cbrt sections,
                               boxes = parse_pc_boxes cbrt sections\<rparr>))"

section \<open>Decoding one memory-card record\<close>

text \<open>
  \<open>SavedPokemon\<close> as \<open>GCIParser._parse_pokemon\<close> fills it, without the species name
  and the nickname (table lookups). The six effort values are fields the parser does
  not set: they keep the default 0 of the dataclass. The other fields the parser
  leaves at a constant or at their default are not listed.
\<close>

record SavedPokemon =
  gc_slot_index :: nat
  gc_species_id :: int
  gc_level :: int
  gc_nature :: string
  gc_is_shadow :: bool
  gc_shadow_level :: int
  gc_moves :: "string list"
  gc_hp_iv :: int
  gc_atk_iv :: int
  gc_def_iv :: int
  gc_spa_iv :: int
  gc_spd_iv :: int
  gc_spe_iv :: int
  gc_hp_ev :: int
  gc_atk_ev :: int
  gc_def_ev :: int
  gc_spa_ev :: int
  gc_spd_ev :: int
  gc_spe_ev :: int

definition gc_moves_of :: "bytes \<Rightarrow> string list" where
  "gc_moves_of data =
     concat (map (\<lambda>m. let off = 0x40 + m * 2
                       in if off + 2 \<le> length data
                          then (let mid = be16 data off
                                in if mid > 0 then [''Move #'' @ str_nat (unat mid)] else [])
                          else [])
                 [0..<4])"

definition gci_parse_pokemon :: "bytes \<Rightarrow> nat \<Rightarrow> SavedPokemon option" where
  "gci_parse_pokemon data idx =
    (if length data < 0x50 then None
     else do {
       sid \<leftarrow> unpack_be16 data 0x00;
       if sid = 0 \<or> sid > 386 then None
       else do {
         let lvl = max 1 (min 100 (if length data > 0x04 then uint (data ! 0x04) else 1));
         let nat_name = NATURES ! ((if length data > 0x08 then unat (data ! 0x08) else 0) mod 25);
         let shadow = (if length data > 0x10 then data ! 0x10 \<noteq> 0 else False);
         let shadow_lvl =
               max 0 (min 5 (if shadow \<and> length data > 0x11 then uint (data ! 0x11) else 0));
         ivs \<leftarrow> (if length data \<ge> 0x3C
                 then do {
                   iv_raw \<leftarrow> unpack_be32 data 0x38;
                   Some (map (\<lambda>j. uint (drop_bit (25 - j * 5) iv_raw AND 0x1F)) [0..<6])
                 }
                 else Some (replicate 6 0));
         let moves = gc_moves_of data;
         Some \<lparr>gc_slot_index = idx, gc_species_id = uint sid, gc_level = lvl,
               gc_nature = nat_name, gc_is_shadow = shadow, gc_shadow_level = shadow_lvl,
               gc_moves = moves,
               gc_hp_iv = ivs ! 0, gc_atk_iv = ivs ! 1, gc_def_iv = ivs ! 2,
               gc_spa_iv = ivs ! 3, gc_spd_iv = ivs ! 4, gc_spe_iv = ivs ! 5,
               gc_hp_ev = 0, gc_atk_ev = 0, gc_def_ev = 0,
               gc_spa_ev = 0, gc_spd_ev = 0, gc_spe_ev = 0\<rparr>
       }
     })"

section \<open>Lemmas: reads, loops over whole words\<close>

lemma fold_guard_all:
  "\<forall>x\<in>set xs. P x \<Longrightarrow> fold (\<lambda>i b. if P i then g i b else b) xs b0 = fold g xs b0"
  by (induction xs arbitrary: b0) auto

lemma fold_guard_none:
  "\<forall>x\<in>set xs. \<not> P x \<Longrightarrow> fold (\<lambda>i b. if P i then g i b else b) xs b0 = b0"
  by (induction xs arbitrary: b0) auto

lemma range_step_4_split:
  "range_step n 4 = map (\<lambda>k. k * 4) [0..<n div 4] @ map (\<lambda>k. k * 4) [n div 4..<(n + 3) div 4]"
proof -
  have "n div 4 \<le> (n + 3) div 4" by (simp add: div_le_mono)
  then have "[0..<(n + 3) div 4] = [0..<n div 4] @ [n div 4..<(n + 3) div 4]"
    by (metis le0 upt_add_eq_append le_add_diff_inverse)
  then have "map (\<lambda>k. k * 4) [0..<(n + 3) div 4]
      = map (\<lambda>k. k * 4) [0..<n div 4] @ map (\<lambda>k. k * 4) [n div 4..<(n + 3) div 4]"
    by (simp only: map_append)
  moreover have "range_step n 4 = map (\<lambda>k. k * 4) [0..<(n + 3) div 4]"
    by (simp add: range_step_def add.commute)
  ultimately show ?thesis by (simp only:)
qed

lemma fold_range_step_4:
  "fold (\<lambda>i b. if i + 4 \<le> n then g i b else b) (range_step n 4) b0
     = fold g (map (\<lambda>k. k * 4) [0..<n div 4]) b0"
proof -
  have a: "\<forall>x\<in>set (map (\<lambda>k. k * 4) [0..<n div 4]). x + 4 \<le> n" by auto
  have b: "\<forall>x\<in>set (map (\<lambda>k. k * 4) [n div 4..<(n + 3) div 4]). \<not> x + 4 \<le> n" by auto
  show ?thesis
    unfolding range_step_4_split fold_append comp_def
    by (simp only: fold_guard_all [where P = "\<lambda>i. i + 4 \<le> n", OF a]
                   fold_guard_none [where P = "\<lambda>i. i + 4 \<le> n", OF b])
qed

lemma length_pack_into_le32 [simp]: "length (pack_into_le32 buf i w) = length buf"
  by (simp add: pack_into_le32_def)

lemma nth_pack_into_le32:
  "i + 4 \<le> length buf \<Longrightarrow> j < length buf \<Longrightarrow>
   pack_into_le32 buf i w ! j = (if i \<le> j \<and> j < i + 4 then byte_of w (j - i) else buf ! j)"
  by (auto simp: pack_into_le32_def nth_list_update)

lemma fold_pack_words:
  "m * 4 \<le> length buf \<Longrightarrow>
   length (fold (\<lambda>i b. pack_into_le32 b i (f i)) (map (\<lambda>k. k * 4) [0..<m]) buf) = length buf \<and>
   (\<forall>j<length buf.
      fold (\<lambda>i b. pack_into_le32 b i (f i)) (map (\<lambda>k. k * 4) [0..<m]) buf ! j
        = (if j < m * 4 then byte_of (f (j div 4 * 4)) (j mod 4) else buf ! j))"
proof (induction m)
  case 0
  then show ?case by simp
next
  case (Suc m)
  let ?b = "fold (\<lambda>i b. pack_into_le32 b i (f i)) (map (\<lambda>k. k * 4) [0..<m]) buf"
  from Suc have len: "length ?b = length buf"
    and nth: "\<And>j. j < length buf \<Longrightarrow> ?b ! j = (if j < m * 4 then byte_of (f (j div 4 * 4)) (j mod 4) else buf ! j)"
    by simp_all
  have step: "fold (\<lambda>i b. pack_into_le32 b i (f i)) (map (\<lambda>k. k * 4) [0..<Suc m]) buf
                = pack_into_le32 ?b (m * 4) (f (m * 4))"
    by simp
  show ?case
  proof (intro conjI allI impI)
    show "length (fold (\<lambda>i b. pack_into_le32 b i (f i)) (map (\<lambda>k. k * 4) [0..<Suc m]) buf) = length buf"
      unfolding step by (simp add: len)
  next
    fix j assume j: "j < length buf"
    have in_range: "m * 4 + 4 \<le> length ?b" using Suc.prems len by simp
    have jb: "j < length ?b" using j len by simp
    show "fold (\<lambda>i b. pack_into_le32 b i (f i)) (map (\<lambda>k. k * 4) [0..<Suc m]) buf ! j
            = (if j < Suc m * 4 then byte_of (f (j div 4 * 4)) (j mod 4) else buf ! j)"
    proof (cases "m * 4 \<le> j \<and> j < m * 4 + 4")
      case True
      then have "j div 4 = m" by auto
      moreover from True have "j mod 4 = j - m * 4"
        by (metis \<open>j div 4 = m\<close> minus_div_mult_eq_mod)
      ultimately show ?thesis
        unfolding step using True by (simp add: nth_pack_into_le32 [OF in_range jb])
    next
      case False
      then show ?thesis
        unfolding step using nth [OF j] by (auto simp: nth_pack_into_le32 [OF in_range jb])
    qed
  qed
qed

lemma byte_of_xor: "byte_of (w XOR k) m = byte_of w m XOR byte_of k m"
  unfolding byte_of_def
  by (rule bit_word_eqI) (auto simp: bit_simps)

lemma byte_of_le32: "m < 4 \<Longrightarrow> byte_of (le32 d off) m = d ! (off + m)"
proof -
  assume "m < 4"
  then consider "m = 0" | "m = 1" | "m = 2" | "m = 3" by linarith
  then show ?thesis
  proof cases
    case 1 then show ?thesis unfolding byte_of_def le32_def
      by simp (rule bit_word_eqI, auto simp: bit_simps dest: bit_imp_le_length)
  next
    case 2 then show ?thesis unfolding byte_of_def le32_def
      by simp (rule bit_word_eqI, auto simp: bit_simps dest: bit_imp_le_length)
  next
    case 3 then show ?thesis unfolding byte_of_def le32_def
      by simp (rule bit_word_eqI, auto simp: bit_simps dest: bit_imp_le_length)
  next
    case 4 then show ?thesis unfolding byte_of_def le32_def
      by simp (rule bit_word_eqI, auto simp: bit_simps dest: bit_imp_le_length)
  qed
qed

lemma le32_byte_of: "w = le32 [byte_of w 0, byte_of w 1, byte_of w 2, byte_of w 3] 0"
  unfolding byte_of_def le32_def
  apply simp
  apply (rule bit_word_eqI)
  apply (auto simp: bit_simps)
  apply (rule ccontr)
  apply (simp add: not_less)
  done

lemma le32_of_bytes:
  "le32 d off = w" if "\<And>m. m < 4 \<Longrightarrow> d ! (off + m) = byte_of w m"
proof -
  have "d ! off = byte_of w 0" "d ! (off + 1) = byte_of w 1"
       "d ! (off + 2) = byte_of w 2" "d ! (off + 3) = byte_of w 3"
    using that [of 0] that [of 1] that [of 2] that [of 3] by simp_all
  then have "le32 d off = le32 [byte_of w 0, byte_of w 1, byte_of w 2, byte_of w 3] 0"
    by (simp add: le32_def)
  then show ?thesis using le32_byte_of [of w] by simp
qed

lemma length_decrypt_pk3_data [simp]:
  "length (decrypt_pk3_data encrypted key) = length encrypted"
  unfolding decrypt_pk3_data_def fold_range_step_4
  using fold_pack_words [of "length encrypted div 4" "replicate (length encrypted) 0"]
  by simp

lemma nth_decrypt_pk3_data:
  assumes "j < length encrypted"
  shows "decrypt_pk3_data encrypted key ! j
           = (if j < length encrypted div 4 * 4 then encrypted ! j XOR byte_of key (j mod 4) else 0)"
proof -
  have "decrypt_pk3_data encrypted key ! j
          = (if j < length encrypted div 4 * 4
             then byte_of (le32 encrypted (j div 4 * 4) XOR key) (j mod 4) else 0)"
    unfolding decrypt_pk3_data_def fold_range_step_4
    using fold_pack_words [of "length encrypted div 4" "replicate (length encrypted) 0"
                              "\<lambda>i. le32 encrypted i XOR key"] assms
    by simp
  then show ?thesis by (simp add: byte_of_xor byte_of_le32)
qed

lemma decrypt_word:
  assumes "i + 4 \<le> length encrypted" "i mod 4 = 0"
  shows "le32 (decrypt_pk3_data encrypted key) i = le32 encrypted i XOR key"
proof (rule le32_of_bytes)
  fix m :: nat assume m: "m < 4"
  have "i + m < length encrypted div 4 * 4" using assms m by presburger
  moreover have "(i + m) mod 4 = m" using assms m by presburger
  ultimately show "decrypt_pk3_data encrypted key ! (i + m) = byte_of (le32 encrypted i XOR key) m"
    using assms m by (simp add: nth_decrypt_pk3_data byte_of_xor byte_of_le32)
qed

lemma decrypt_twice:
  assumes "length encrypted mod 4 = 0"
  shows "decrypt_pk3_data (decrypt_pk3_data encrypted key) key = encrypted"
proof (rule nth_equalityI)
  show "length (decrypt_pk3_data (decrypt_pk3_data encrypted key) key) = length encrypted" by simp
next
  fix j assume "j < length (decrypt_pk3_data (decrypt_pk3_data encrypted key) key)"
  then have j: "j < length encrypted" by simp
  have full: "length encrypted div 4 * 4 = length encrypted" using assms by auto
  show "decrypt_pk3_data (decrypt_pk3_data encrypted key) key ! j = encrypted ! j"
    using j by (simp add: nth_decrypt_pk3_data full xor.assoc)
qed

section \<open>The record cipher is an involution (C2)\<close>

text \<open>
  C2. The key that \<open>_parse_pk3\<close> hands to the cipher is the personality value XOR the
  combined owner-id word; on a 48-byte payload the cipher XORs each of the twelve 32-bit
  little-endian words with that one key; and deciphering twice with the same key gives
  the 48 bytes back.
\<close>

theorem decrypt_pk3_roundtrip:
  "length encrypted = PK3_DATA_SIZE \<Longrightarrow>
     pk3_key pv ot = pv XOR ot \<and>
     pk3_decrypted data
       = decrypt_pk3_data (pk3_encrypted data) (pk3_key (le32 data 0) (le32 data 4)) \<and>
     length (decrypt_pk3_data encrypted key) = PK3_DATA_SIZE \<and>
     (\<forall>i<12. le32 (decrypt_pk3_data encrypted key) (4 * i) = le32 encrypted (4 * i) XOR key) \<and>
     decrypt_pk3_data (decrypt_pk3_data encrypted key) key = encrypted"
proof (intro conjI allI impI)
  assume len: "length encrypted = PK3_DATA_SIZE"
  show "pk3_key pv ot = pv XOR ot" by (simp add: pk3_key_def)
  show "pk3_decrypted data
          = decrypt_pk3_data (pk3_encrypted data) (pk3_key (le32 data 0) (le32 data 4))"
    by (simp add: pk3_decrypted_def)
  show "length (decrypt_pk3_data encrypted key) = PK3_DATA_SIZE" using len by simp
  show "decrypt_pk3_data (decrypt_pk3_data encrypted key) key = encrypted"
    using len by (simp add: decrypt_twice)
  fix i :: nat assume "i < 12"
  then show "le32 (decrypt_pk3_data encrypted key) (4 * i) = le32 encrypted (4 * i) XOR key"
    using len by (intro decrypt_word) simp_all
qed

theorem decrypt_pk3_roundtrip_witness:
  "length (map of_nat [1..<49] :: bytes) = PK3_DATA_SIZE \<and>
   decrypt_pk3_data (decrypt_pk3_data (map of_nat [1..<49]) 0xDEADBEEF) 0xDEADBEEF
     = map of_nat [1..<49]"
  using decrypt_pk3_roundtrip [of "map of_nat [1..<49]" 0 0 "[]" "0xDEADBEEF"]
  by simp

section \<open>The substructure shuffle is a partition (C3)\<close>

lemma substructure_order_mem: "substructure_order pv \<in> set SUBSTRUCTURE_ORDER"
proof -
  have "length SUBSTRUCTURE_ORDER = 24" by (simp add: SUBSTRUCTURE_ORDER_def)
  then show ?thesis unfolding substructure_order_def by (intro nth_mem) simp
qed

lemma order_is_permutation:
  "order \<in> set SUBSTRUCTURE_ORDER \<Longrightarrow>
   length order = 4 \<and> distinct order \<and> set order = {CHR ''G'', CHR ''A'', CHR ''E'', CHR ''M''}"
  unfolding SUBSTRUCTURE_ORDER_def by auto

lemma sub_get_nth:
  assumes "length order = 4" "distinct order" "i < 4"
  shows "sub_get (sub_map order d) (order ! i) = slice d (i * 12) ((i + 1) * 12)"
proof -
  from assms(1) obtain a b c e where o: "order = [a, b, c, e]"
    by (auto simp: length_Suc_conv numeral_eq_Suc)
  from assms(3) consider "i = 0" | "i = 1" | "i = 2" | "i = 3" by linarith
  then show ?thesis
    using assms(2) unfolding o by cases (auto simp: sub_map_def sub_get_def)
qed

lemma slices_of_48:
  assumes "length d = 48"
  shows "slice d 0 12 @ slice d 12 24 @ slice d 24 36 @ slice d 36 48 = d"
proof -
  have a: "take 12 (drop 24 d) @ take 12 (drop 36 d) = take 24 (drop 24 d)"
    using take_add [of 12 12 "drop 24 d"] by simp
  have b: "take 12 (drop 12 d) @ take 24 (drop 24 d) = take 36 (drop 12 d)"
    using take_add [of 12 24 "drop 12 d"] by simp
  have c: "take 12 d @ take 36 (drop 12 d) = take 48 d"
    using take_add [of 12 36 d] by simp
  have s: "slice d 0 12 = take 12 d" "slice d 12 24 = take 12 (drop 12 d)"
          "slice d 24 36 = take 12 (drop 24 d)" "slice d 36 48 = take 12 (drop 36 d)"
    by (simp_all add: slice_def)
  show ?thesis unfolding s a b c using assms by simp
qed

text \<open>
  C3. For every 32-bit personality value, \<open>personality_value mod 24\<close> is an index of the
  24-entry table; the entry names each of Growth, Attacks, Condition and Misc exactly
  once; the letter at position \<open>i\<close> gets the 12 bytes from \<open>12 * i\<close>; and the four blocks,
  taken in the entry's order, are the 48 decrypted bytes again: no overlap, no gap.
\<close>

theorem substructure_partition:
  "unat pv mod 24 < length SUBSTRUCTURE_ORDER \<and>
   length (substructure_order pv) = 4 \<and>
   distinct (substructure_order pv) \<and>
   set (substructure_order pv) = {CHR ''G'', CHR ''A'', CHR ''E'', CHR ''M''} \<and>
   (\<forall>i<4. sub_get (sub_map (substructure_order pv) decrypted) (substructure_order pv ! i)
            = slice decrypted (i * 12) ((i + 1) * 12)) \<and>
   (length decrypted = PK3_DATA_SIZE \<longrightarrow>
      (\<forall>letter \<in> {CHR ''G'', CHR ''A'', CHR ''E'', CHR ''M''}.
         length (sub_get (sub_map (substructure_order pv) decrypted) letter) = 12) \<and>
      concat (map (sub_get (sub_map (substructure_order pv) decrypted)) (substructure_order pv))
        = decrypted)"
proof -
  define order where "order = substructure_order pv"
  define subs where "subs = sub_map order decrypted"
  have perm: "length order = 4" "distinct order"
             "set order = {CHR ''G'', CHR ''A'', CHR ''E'', CHR ''M''}"
    using order_is_permutation [OF substructure_order_mem [of pv]] by (simp_all add: order_def)
  have blocks: "sub_get subs (order ! i) = slice decrypted (i * 12) ((i + 1) * 12)"
    if "i < 4" for i
    unfolding subs_def using sub_get_nth [OF perm(1) perm(2) that] .
  have idx: "unat pv mod 24 < length SUBSTRUCTURE_ORDER"
    by (simp add: SUBSTRUCTURE_ORDER_def)
  have whole: "concat (map (sub_get subs) order) = decrypted"
    and lens: "\<forall>letter \<in> {CHR ''G'', CHR ''A'', CHR ''E'', CHR ''M''}.
                 length (sub_get subs letter) = 12"
    if len: "length decrypted = PK3_DATA_SIZE"
  proof -
    from perm(1) obtain a b c e where o: "order = [a, b, c, e]"
      by (auto simp: length_Suc_conv numeral_eq_Suc)
    have nth: "sub_get subs a = slice decrypted 0 12" "sub_get subs b = slice decrypted 12 24"
              "sub_get subs c = slice decrypted 24 36" "sub_get subs e = slice decrypted 36 48"
      using blocks [of 0] blocks [of 1] blocks [of 2] blocks [of 3] unfolding o by simp_all
    show "concat (map (sub_get subs) order) = decrypted"
      unfolding o using slices_of_48 [OF len] by (simp add: nth)
    have "length (sub_get subs x) = 12" if "x \<in> set order" for x
      using that len unfolding o by (auto simp: nth slice_def)
    then show "\<forall>letter \<in> {CHR ''G'', CHR ''A'', CHR ''E'', CHR ''M''}.
                 length (sub_get subs letter) = 12"
      unfolding perm(3) by blast
  qed
  from idx perm blocks whole lens show ?thesis
    unfolding subs_def order_def by blast
qed

theorem substructure_partition_witness:
  "length (map of_nat [0..<48] :: bytes) = PK3_DATA_SIZE \<and>
   sub_get (sub_map (substructure_order 7) (map of_nat [0..<48])) (substructure_order 7 ! 1)
     = slice (map of_nat [0..<48]) 12 24 \<and>
   concat (map (sub_get (sub_map (substructure_order 7) (map of_nat [0..<48])))
               (substructure_order 7)) = map of_nat [0..<48]"
proof -
  note t = substructure_partition [of 7 "map of_nat [0..<48]"]
  have len: "length (map of_nat [0..<48] :: bytes) = PK3_DATA_SIZE" by simp
  from t have "\<forall>i<4. sub_get (sub_map (substructure_order 7) (map of_nat [0..<48]))
                         (substructure_order 7 ! i)
                     = slice (map of_nat [0..<48]) (i * 12) ((i + 1) * 12)"
    by (elim conjE)
  from this [rule_format, of 1]
  have g: "sub_get (sub_map (substructure_order 7) (map of_nat [0..<48])) (substructure_order 7 ! 1)
             = slice (map of_nat [0..<48]) 12 24"
    by simp
  from t len
  have "concat (map (sub_get (sub_map (substructure_order 7) (map of_nat [0..<48])))
               (substructure_order 7)) = map of_nat [0..<48]"
    by (elim conjE) (simp only:)
  with len g show ?thesis by (simp only: simp_thms)
qed

section \<open>Choosing between two assembled slots (C5, C10)\<close>

lemma get_save_index_readable:
  "map_of s 0 = Some sec \<Longrightarrow> GBA_SAVE_INDEX_OFF + 4 \<le> length sec \<Longrightarrow>
   get_save_index s = uint (le32 sec GBA_SAVE_INDEX_OFF)"
  by (simp add: get_save_index_def unpack_le32_def)

lemma get_save_index_unreadable:
  "map_of s 0 = None \<or> (\<exists>sec. map_of s 0 = Some sec \<and> length sec < GBA_SAVE_INDEX_OFF + 4) \<Longrightarrow>
   get_save_index s = - 1"
  by (auto simp: get_save_index_def unpack_le32_def)

text \<open>
  C5. With both slots assembled, the selector compares the save indices of the two
  slots and returns the one with the higher index, the first (offset-0) slot on a tie;
  the index of a slot is the 32-bit little-endian word at \<open>0xFFC\<close> of its section 0.
\<close>

theorem pick_best_slot_higher_index:
  "pick_best_slot (Some a) (Some b)
     = (if get_save_index a \<ge> get_save_index b then Some (SlotA, a) else Some (SlotB, b)) \<and>
   (map_of a 0 = Some sa \<and> length sa = GBA_SECTION_SIZE \<longrightarrow>
      get_save_index a = uint (le32 sa GBA_SAVE_INDEX_OFF)) \<and>
   (map_of a 0 = Some sa \<and> length sa = GBA_SECTION_SIZE \<and>
    map_of b 0 = Some sb \<and> length sb = GBA_SECTION_SIZE \<longrightarrow>
      (le32 sa GBA_SAVE_INDEX_OFF < le32 sb GBA_SAVE_INDEX_OFF \<longrightarrow>
         pick_best_slot (Some a) (Some b) = Some (SlotB, b)) \<and>
      (le32 sa GBA_SAVE_INDEX_OFF \<ge> le32 sb GBA_SAVE_INDEX_OFF \<longrightarrow>
         pick_best_slot (Some a) (Some b) = Some (SlotA, a)))"
proof (intro conjI impI)
  show pick: "pick_best_slot (Some a) (Some b)
     = (if get_save_index a \<ge> get_save_index b then Some (SlotA, a) else Some (SlotB, b))"
    by (simp add: pick_best_slot_def Let_def)
  {
    assume "map_of a 0 = Some sa \<and> length sa = GBA_SECTION_SIZE"
    then show "get_save_index a = uint (le32 sa GBA_SAVE_INDEX_OFF)"
      by (simp add: get_save_index_readable)
  }
  {
    assume both: "map_of a 0 = Some sa \<and> length sa = GBA_SECTION_SIZE \<and>
                  map_of b 0 = Some sb \<and> length sb = GBA_SECTION_SIZE"
    then have ia: "get_save_index a = uint (le32 sa GBA_SAVE_INDEX_OFF)"
      and ib: "get_save_index b = uint (le32 sb GBA_SAVE_INDEX_OFF)"
      by (simp_all add: get_save_index_readable)
    {
      assume "le32 sa GBA_SAVE_INDEX_OFF < le32 sb GBA_SAVE_INDEX_OFF"
      then show "pick_best_slot (Some a) (Some b) = Some (SlotB, b)"
        unfolding pick ia ib by (simp add: word_less_def)
    }
    {
      assume "le32 sa GBA_SAVE_INDEX_OFF \<ge> le32 sb GBA_SAVE_INDEX_OFF"
      then show "pick_best_slot (Some a) (Some b) = Some (SlotA, a)"
        unfolding pick ia ib by (simp add: word_le_def)
    }
  }
qed

lemma le32_footer:
  "length pre = GBA_SAVE_INDEX_OFF \<Longrightarrow> le32 (pre @ [b0, b1, b2, b3]) GBA_SAVE_INDEX_OFF = le32 [b0, b1, b2, b3] 0"
  by (simp add: le32_def nth_append)

theorem pick_best_slot_higher_index_witness:
  "pick_best_slot (Some [(0, replicate GBA_SAVE_INDEX_OFF 0 @ [3, 0, 0, 0])])
                  (Some [(0, replicate GBA_SAVE_INDEX_OFF 0 @ [7, 0, 0, 0])])
     = Some (SlotB, [(0, replicate GBA_SAVE_INDEX_OFF 0 @ [7, 0, 0, 0])]) \<and>
   pick_best_slot (Some [(0, replicate GBA_SAVE_INDEX_OFF 0 @ [3, 0, 0, 0])])
                  (Some [(0, replicate GBA_SAVE_INDEX_OFF 1 @ [3, 0, 0, 0])])
     = Some (SlotA, [(0, replicate GBA_SAVE_INDEX_OFF 0 @ [3, 0, 0, 0])])"
proof -
  have v: "le32 [3, 0, 0, 0] 0 = 3" "le32 [7, 0, 0, 0] 0 = 7"
    by (simp_all add: le32_def)
  show ?thesis
    using pick_best_slot_higher_index
            [of "[(0, replicate GBA_SAVE_INDEX_OFF 0 @ [3, 0, 0, 0])]"
                "[(0, replicate GBA_SAVE_INDEX_OFF 0 @ [7, 0, 0, 0])]"
                "replicate GBA_SAVE_INDEX_OFF 0 @ [3, 0, 0, 0]"
                "replicate GBA_SAVE_INDEX_OFF 0 @ [7, 0, 0, 0]",
             THEN conjunct2, THEN conjunct2]
          pick_best_slot_higher_index
            [of "[(0, replicate GBA_SAVE_INDEX_OFF 0 @ [3, 0, 0, 0])]"
                "[(0, replicate GBA_SAVE_INDEX_OFF 1 @ [3, 0, 0, 0])]"
                "replicate GBA_SAVE_INDEX_OFF 0 @ [3, 0, 0, 0]"
                "replicate GBA_SAVE_INDEX_OFF 1 @ [3, 0, 0, 0]",
             THEN conjunct2, THEN conjunct2]
    by (simp add: le32_footer v)
qed

text \<open>
  C10. A slot without section 0, or whose section 0 is too short to hold the index
  word, counts as index \<open>-1\<close>; a readable index is never negative. So between two
  assembled slots the one with a readable index wins over the one without, and when
  neither has one the first (offset-0) slot is taken.
\<close>

theorem pick_best_slot_missing_index:
  "((map_of s 0 = None \<or> (\<exists>sec. map_of s 0 = Some sec \<and> length sec < GBA_SAVE_INDEX_OFF + 4)) \<longrightarrow>
      get_save_index s = - 1) \<and>
   ((\<exists>sec. map_of s 0 = Some sec \<and> GBA_SAVE_INDEX_OFF + 4 \<le> length sec) \<longrightarrow>
      0 \<le> get_save_index s) \<and>
   ((\<exists>sec. map_of a 0 = Some sec \<and> GBA_SAVE_INDEX_OFF + 4 \<le> length sec) \<and>
    (map_of b 0 = None \<or> (\<exists>sec. map_of b 0 = Some sec \<and> length sec < GBA_SAVE_INDEX_OFF + 4)) \<longrightarrow>
      pick_best_slot (Some a) (Some b) = Some (SlotA, a)) \<and>
   ((map_of a 0 = None \<or> (\<exists>sec. map_of a 0 = Some sec \<and> length sec < GBA_SAVE_INDEX_OFF + 4)) \<and>
    (\<exists>sec. map_of b 0 = Some sec \<and> GBA_SAVE_INDEX_OFF + 4 \<le> length sec) \<longrightarrow>
      pick_best_slot (Some a) (Some b) = Some (SlotB, b)) \<and>
   ((map_of a 0 = None \<or> (\<exists>sec. map_of a 0 = Some sec \<and> length sec < GBA_SAVE_INDEX_OFF + 4)) \<and>
    (map_of b 0 = None \<or> (\<exists>sec. map_of b 0 = Some sec \<and> length sec < GBA_SAVE_INDEX_OFF + 4)) \<longrightarrow>
      pick_best_slot (Some a) (Some b) = Some (SlotA, a))"
proof -
  have neg: "get_save_index t = - 1"
    if "map_of t 0 = None \<or> (\<exists>sec. map_of t 0 = Some sec \<and> length sec < GBA_SAVE_INDEX_OFF + 4)"
    for t using that by (rule get_save_index_unreadable)
  have pos: "0 \<le> get_save_index t"
    if "\<exists>sec. map_of t 0 = Some sec \<and> GBA_SAVE_INDEX_OFF + 4 \<le> length sec" for t
    using that by (auto simp: get_save_index_readable)
  have pick: "pick_best_slot (Some a) (Some b)
     = (if get_save_index a \<ge> get_save_index b then Some (SlotA, a) else Some (SlotB, b))"
    by (simp add: pick_best_slot_def Let_def)
  show ?thesis
  proof (intro conjI impI)
    show "get_save_index s = - 1"
      if "map_of s 0 = None \<or> (\<exists>sec. map_of s 0 = Some sec \<and> length sec < GBA_SAVE_INDEX_OFF + 4)"
      using that by (rule neg)
    show "0 \<le> get_save_index s"
      if "\<exists>sec. map_of s 0 = Some sec \<and> GBA_SAVE_INDEX_OFF + 4 \<le> length sec"
      using that by (rule pos)
    show "pick_best_slot (Some a) (Some b) = Some (SlotA, a)"
      if "(\<exists>sec. map_of a 0 = Some sec \<and> GBA_SAVE_INDEX_OFF + 4 \<le> length sec) \<and>
          (map_of b 0 = None \<or> (\<exists>sec. map_of b 0 = Some sec \<and> length sec < GBA_SAVE_INDEX_OFF + 4))"
      using pos [of a] neg [of b] that unfolding pick by simp
    show "pick_best_slot (Some a) (Some b) = Some (SlotB, b)"
      if "(map_of a 0 = None \<or> (\<exists>sec. map_of a 0 = Some sec \<and> length sec < GBA_SAVE_INDEX_OFF + 4)) \<and>
          (\<exists>sec. map_of b 0 = Some sec \<and> GBA_SAVE_INDEX_OFF + 4 \<le> length sec)"
      using neg [of a] pos [of b] that unfolding pick by simp
    show "pick_best_slot (Some a) (Some b) = Some (SlotA, a)"
      if "(map_of a 0 = None \<or> (\<exists>sec. map_of a 0 = Some sec \<and> length sec < GBA_SAVE_INDEX_OFF + 4)) \<and>
          (map_of b 0 = None \<or> (\<exists>sec. map_of b 0 = Some sec \<and> length sec < GBA_SAVE_INDEX_OFF + 4))"
      using neg [of a] neg [of b] that unfolding pick by simp
  qed
qed

theorem pick_best_slot_missing_index_witness:
  "get_save_index [(1, [])] = - 1 \<and>
   pick_best_slot (Some [(1, [])]) (Some [(0, replicate GBA_SAVE_INDEX_OFF 0 @ [0, 0, 0, 0])])
     = Some (SlotB, [(0, replicate GBA_SAVE_INDEX_OFF 0 @ [0, 0, 0, 0])]) \<and>
   pick_best_slot (Some [(0, replicate GBA_SAVE_INDEX_OFF 0 @ [0, 0, 0, 0])]) (Some [(0, [1, 2])])
     = Some (SlotA, [(0, replicate GBA_SAVE_INDEX_OFF 0 @ [0, 0, 0, 0])]) \<and>
   pick_best_slot (Some [(1, [])]) (Some [(2, [])]) = Some (SlotA, [(1, [])])"
  using pick_best_slot_missing_index
          [of "[(1, [])]" "[(1, [])]" "[(0, replicate GBA_SAVE_INDEX_OFF 0 @ [0, 0, 0, 0])]"]
        pick_best_slot_missing_index
          [of "[(1, [])]" "[(0, replicate GBA_SAVE_INDEX_OFF 0 @ [0, 0, 0, 0])]" "[(0, [1, 2])]"]
        pick_best_slot_missing_index
          [of "[(1, [])]" "[(1, [])]" "[(2, [])]"]
  by simp

section \<open>A record exists exactly for the species ids 1 to 386 (C4)\<close>

lemma sub_get_length:
  assumes "order \<in> set SUBSTRUCTURE_ORDER" "length d = 48"
  shows "length (sub_get (sub_map order d) letter) = 12"
proof -
  from order_is_permutation [OF assms(1)] obtain a b c e where o: "order = [a, b, c, e]"
    by (auto simp: length_Suc_conv numeral_eq_Suc)
  show ?thesis
    unfolding o using assms(2)
    by (simp add: sub_map_def sub_get_def slice_def update_conv' min_def)
qed

lemma length_pk3_encrypted: "80 \<le> length data \<Longrightarrow> length (pk3_encrypted data) = 48"
  by (simp add: pk3_encrypted_def slice_def)

lemma length_pk3_block:
  "80 \<le> length data \<Longrightarrow>
   length (sub_get (sub_map (substructure_order pv) (decrypt_pk3_data (pk3_encrypted data) key)) letter) = 12"
  by (rule sub_get_length [OF substructure_order_mem]) (simp add: length_pk3_encrypted)

lemma word16_range: "(w = 0 \<or> w > 386) = (uint w = 0 \<or> uint w > 386)" for w :: "16 word"
  by (simp add: word_less_def uint_0_iff)

lemma parse_pk3_result:
  assumes len: "80 \<le> length data"
  shows "(parse_pk3 cbrt data = None) = (pk3_species data = 0 \<or> pk3_species data > 386)"
    and "parse_pk3 cbrt data = Some p \<Longrightarrow> species_id p = pk3_species data"
proof -
  have sp: "pk3_species data = uint (le16 (sub_get (sub_map (substructure_order (le32 data 0))
              (decrypt_pk3_data (pk3_encrypted data) (pk3_key (le32 data 0) (le32 data 4)))) CHR ''G'') 0)"
    by (simp add: pk3_species_def pk3_growth_def pk3_decrypted_def)
  note blk0 = length_pk3_block [OF len]
  have ne: "sub_get (sub_map (substructure_order pv) (decrypt_pk3_data (pk3_encrypted data) key)) letter \<noteq> []"
    for pv key letter
    using blk0 [of pv key letter] by auto
  note blk = blk0 ne
  show "(parse_pk3 cbrt data = None) = (pk3_species data = 0 \<or> pk3_species data > 386)"
  proof (cases "100 \<le> length data")
    case True
    then show ?thesis using len unfolding sp
      by (simp add: parse_pk3_def unpack_le32_def unpack_le16_def index_def blk Let_def
                    word16_range slice_def)
  next
    case False
    then show ?thesis using len unfolding sp
      by (simp add: parse_pk3_def unpack_le32_def unpack_le16_def index_def blk Let_def
                    word16_range slice_def)
  qed
  show "species_id p = pk3_species data" if "parse_pk3 cbrt data = Some p"
  proof (cases "100 \<le> length data")
    case True
    then show ?thesis using len that unfolding sp
      by (auto simp add: parse_pk3_def unpack_le32_def unpack_le16_def index_def blk Let_def
                    slice_def split: if_splits)
  next
    case False
    then show ?thesis using len that unfolding sp
      by (auto simp add: parse_pk3_def unpack_le32_def unpack_le16_def index_def blk Let_def
                    slice_def split: if_splits)
  qed
qed

lemma pk3_species_at:
  assumes len: "80 \<le> length data"
    and i: "i < 4" "substructure_order (le32 data 0) ! i = CHR ''G''"
  shows "pk3_species data
           = uint (le16 [data ! (32 + i * 12) XOR byte_of (pk3_key (le32 data 0) (le32 data 4)) 0,
                         data ! (33 + i * 12) XOR byte_of (pk3_key (le32 data 0) (le32 data 4)) 1] 0)"
proof -
  let ?key = "pk3_key (le32 data 0) (le32 data 4)"
  let ?ord = "substructure_order (le32 data 0)"
  have perm: "length ?ord = 4" "distinct ?ord"
    using order_is_permutation [OF substructure_order_mem [of "le32 data 0"]] by simp_all
  have enc: "length (pk3_encrypted data) = 48" using len by (rule length_pk3_encrypted)
  have g: "pk3_growth data = slice (pk3_decrypted data) (i * 12) ((i + 1) * 12)"
    unfolding pk3_growth_def using sub_get_nth [OF perm i(1)] i(2) by simp
  have dl: "length (pk3_decrypted data) = 48" by (simp add: pk3_decrypted_def enc)
  have nth: "pk3_decrypted data ! j = data ! (32 + j) XOR byte_of ?key (j mod 4)" if "j < 48" for j
    using that len unfolding pk3_decrypted_def
    by (simp add: nth_decrypt_pk3_data enc) (simp add: pk3_encrypted_def slice_def)
  have m: "(i * 12) mod 4 = 0" "(i * 12 + 1) mod 4 = 1" "Suc (i * 12) mod 4 = Suc 0"
    by presburger+
  have "le16 (pk3_growth data) 0
          = le16 [pk3_decrypted data ! (i * 12), pk3_decrypted data ! (i * 12 + 1)] 0"
    unfolding g using i(1) dl by (simp add: le16_def slice_def)
  also have "\<dots> = le16 [data ! (32 + i * 12) XOR byte_of ?key 0,
                         data ! (33 + i * 12) XOR byte_of ?key 1] 0"
    using i(1) by (simp add: nth m add.commute add.left_commute)
  finally show ?thesis by (simp add: pk3_species_def)
qed

lemma gci_parse_pokemon_result:
  assumes len: "0x50 \<le> length data"
  shows "(gci_parse_pokemon data idx = None) = (uint (be16 data 0) = 0 \<or> uint (be16 data 0) > 386)"
    and "gci_parse_pokemon data idx = Some p \<Longrightarrow> gc_species_id p = uint (be16 data 0)"
proof -
  show "(gci_parse_pokemon data idx = None) = (uint (be16 data 0) = 0 \<or> uint (be16 data 0) > 386)"
    using len
    by (simp add: gci_parse_pokemon_def unpack_be16_def unpack_be32_def Let_def word16_range)
  show "gc_species_id p = uint (be16 data 0)" if "gci_parse_pokemon data idx = Some p"
    using len that
    by (auto simp add: gci_parse_pokemon_def unpack_be16_def unpack_be32_def Let_def
             split: if_splits)
qed

text \<open>
  C4. Both record codecs refuse a buffer shorter than 80 bytes (\<open>0x50\<close>) before they
  look at the species. On a buffer that is long enough, the cartridge codec and the
  memory-card codec produce a record exactly when the decoded species id lies in 1..386,
  and the record carries that id: 386 decodes, 0 and 387 are absent.
\<close>

theorem species_presence:
  "(PK3_HEADER_SIZE + PK3_DATA_SIZE \<le> length data \<longrightarrow>
      ((\<exists>p. parse_pk3 cbrt data = Some p) \<longleftrightarrow> 1 \<le> pk3_species data \<and> pk3_species data \<le> 386) \<and>
      (\<forall>p. parse_pk3 cbrt data = Some p \<longrightarrow> species_id p = pk3_species data)) \<and>
   (0x50 \<le> length gdata \<longrightarrow>
      ((\<exists>p. gci_parse_pokemon gdata idx = Some p)
         \<longleftrightarrow> 1 \<le> uint (be16 gdata 0) \<and> uint (be16 gdata 0) \<le> 386) \<and>
      (\<forall>p. gci_parse_pokemon gdata idx = Some p \<longrightarrow> gc_species_id p = uint (be16 gdata 0)))"
proof (intro conjI impI allI)
  assume len: "PK3_HEADER_SIZE + PK3_DATA_SIZE \<le> length data"
  then have l: "80 \<le> length data" by simp
  have nonneg: "0 \<le> pk3_species data" by (simp add: pk3_species_def)
  from parse_pk3_result(1) [OF l, of cbrt] nonneg
  show "(\<exists>p. parse_pk3 cbrt data = Some p) \<longleftrightarrow> 1 \<le> pk3_species data \<and> pk3_species data \<le> 386"
    by (cases "parse_pk3 cbrt data") auto
  fix p assume "parse_pk3 cbrt data = Some p"
  then show "species_id p = pk3_species data" by (rule parse_pk3_result(2) [OF l])
next
  assume len: "0x50 \<le> length gdata"
  have "uint (be16 gdata 0) \<noteq> 0 \<longleftrightarrow> 1 \<le> uint (be16 gdata 0)"
    using uint_ge_0 [of "be16 gdata 0"] by linarith
  with gci_parse_pokemon_result(1) [OF len, of idx]
  show "(\<exists>p. gci_parse_pokemon gdata idx = Some p)
          \<longleftrightarrow> 1 \<le> uint (be16 gdata 0) \<and> uint (be16 gdata 0) \<le> 386"
    by (cases "gci_parse_pokemon gdata idx") auto
  fix p assume "gci_parse_pokemon gdata idx = Some p"
  then show "gc_species_id p = uint (be16 gdata 0)" by (rule gci_parse_pokemon_result(2) [OF len])
qed

text \<open>
  The boundary cases on concrete 80-byte buffers. Cartridge: personality value 7 (order
  \<open>AGME\<close>, so Growth is the second block, at offset 44), owner-id word \<open>0x00020001\<close>, key
  \<open>0x00020006\<close>; the two species bytes are stored XORed with the key bytes 6 and 0.
  Memory card: the species is the big-endian half-word at offset 0.
\<close>

lemma pk3_sample_species:
  assumes "80 \<le> n"
  shows "pk3_species ((replicate n 0)[0 := 7, 4 := 1, 6 := 2, 44 := lo, 45 := hi])
           = uint (le16 [lo XOR 6, hi] 0)"
proof -
  let ?d = "(replicate n 0)[0 := 7, 4 := 1, 6 := 2, 44 := lo, 45 := hi]"
  have o: "substructure_order (le32 ?d 0) ! 1 = CHR ''G''"
    using assms by (simp add: le32_def substructure_order_def SUBSTRUCTURE_ORDER_def)
  have k: "byte_of (pk3_key (le32 ?d 0) (le32 ?d 4)) 0 = 6"
          "byte_of (pk3_key (le32 ?d 0) (le32 ?d 4)) 1 = 0"
    using assms by (simp_all add: le32_def pk3_key_def byte_of_def)
  have "pk3_species ?d = uint (le16 [?d ! (32 + 1 * 12) XOR 6, ?d ! (33 + 1 * 12) XOR 0] 0)"
    using pk3_species_at [of ?d 1, OF _ _ o] assms unfolding k by simp
  then show ?thesis using assms by simp
qed

theorem species_presence_witness:
  "(\<exists>p. parse_pk3 (\<lambda>_. 0) ((replicate 80 0)[0 := 7, 4 := 1, 6 := 2, 44 := 0x84, 45 := 1]) = Some p
        \<and> species_id p = 386) \<and>
   parse_pk3 (\<lambda>_. 0) ((replicate 80 0)[0 := 7, 4 := 1, 6 := 2, 44 := 0x85, 45 := 1]) = None \<and>
   parse_pk3 (\<lambda>_. 0) ((replicate 80 0)[0 := 7, 4 := 1, 6 := 2, 44 := 6, 45 := 0]) = None \<and>
   (\<exists>p. gci_parse_pokemon ((replicate 80 0)[0 := 1, 1 := 0x82]) 0 = Some p
        \<and> gc_species_id p = 386) \<and>
   gci_parse_pokemon ((replicate 80 0)[0 := 1, 1 := 0x83]) 0 = None \<and>
   gci_parse_pokemon (replicate 80 0) 0 = None"
proof -
  have a: "pk3_species ((replicate 80 0)[0 := 7, 4 := 1, 6 := 2, 44 := 0x84, 45 := 1]) = 386"
    and b: "pk3_species ((replicate 80 0)[0 := 7, 4 := 1, 6 := 2, 44 := 0x85, 45 := 1]) = 387"
    and c: "pk3_species ((replicate 80 0)[0 := 7, 4 := 1, 6 := 2, 44 := 6, 45 := 0]) = 0"
    by (simp_all add: pk3_sample_species le16_def)
  have g: "be16 ((replicate 80 0)[0 := 1, 1 := 0x82]) 0 = 386"
          "be16 ((replicate 80 0)[0 := 1, 1 := 0x83]) 0 = 387"
          "be16 (replicate 80 0) 0 = 0"
    by (simp_all add: be16_def)
  note t1 = species_presence [where cbrt = "\<lambda>_. 0" and idx = 0
      and data = "(replicate 80 0)[0 := 7, 4 := 1, 6 := 2, 44 := 0x84, 45 := 1]"
      and gdata = "(replicate 80 0)[0 := 1, 1 := 0x82]", unfolded a g]
  note t2 = species_presence [where cbrt = "\<lambda>_. 0" and idx = 0
      and data = "(replicate 80 0)[0 := 7, 4 := 1, 6 := 2, 44 := 0x85, 45 := 1]"
      and gdata = "(replicate 80 0)[0 := 1, 1 := 0x83]", unfolded b g]
  note t3 = species_presence [where cbrt = "\<lambda>_. 0" and idx = 0
      and data = "(replicate 80 0)[0 := 7, 4 := 1, 6 := 2, 44 := 6, 45 := 0]"
      and gdata = "replicate 80 0", unfolded c g]
  from t1 have "(\<exists>p. parse_pk3 (\<lambda>_. 0) ((replicate 80 0)[0 := 7, 4 := 1, 6 := 2, 44 := 0x84, 45 := 1]) = Some p
        \<and> species_id p = 386)"
    and "(\<exists>p. gci_parse_pokemon ((replicate 80 0)[0 := 1, 1 := 0x82]) 0 = Some p
        \<and> gc_species_id p = 386)"
    by auto
  moreover from t2
  have "parse_pk3 (\<lambda>_. 0) ((replicate 80 0)[0 := 7, 4 := 1, 6 := 2, 44 := 0x85, 45 := 1]) = None"
    and "gci_parse_pokemon ((replicate 80 0)[0 := 1, 1 := 0x83]) 0 = None"
    by auto
  moreover from t3
  have "parse_pk3 (\<lambda>_. 0) ((replicate 80 0)[0 := 7, 4 := 1, 6 := 2, 44 := 6, 45 := 0]) = None"
    and "gci_parse_pokemon (replicate 80 0) 0 = None"
    by auto
  ultimately show ?thesis by (simp only: simp_thms)
qed

section \<open>The section checksum (C8)\<close>

lemma fold_add_sum_list: "fold (\<lambda>i t. t + f i) xs (a :: int) = a + sum_list (map f xs)"
  by (induction xs arbitrary: a) (simp_all add: add.assoc)

lemma words_total:
  "fold (\<lambda>i total. if i + 4 \<le> length da then total + uint (le32 da i) else total)
        (range_step (length da) 4) 0
     = (\<Sum>k<length da div 4. uint (le32 da (k * 4)))"
proof -
  have "fold (\<lambda>i total. if i + 4 \<le> length da then total + uint (le32 da i) else total)
          (range_step (length da) 4) 0
        = fold (\<lambda>i t. t + uint (le32 da i)) (map (\<lambda>k. k * 4) [0..<length da div 4]) 0"
    by (rule fold_range_step_4)
  also have "\<dots> = sum_list (map (\<lambda>k. uint (le32 da (k * 4))) [0..<length da div 4])"
    by (simp add: fold_add_sum_list comp_def)
  also have "\<dots> = (\<Sum>k<length da div 4. uint (le32 da (k * 4)))"
    by (simp add: interv_sum_list_conv_sum_set_nat atLeast0LessThan)
  finally show ?thesis .
qed

lemma int_and_ffff: "(t :: int) AND 0xFFFF = t mod 65536"
proof -
  have m: "(0xFFFF :: int) = mask 16" by (simp add: mask_eq_exp_minus_1)
  have "t AND 0xFFFF = t AND mask 16" by (simp only: m)
  also have "\<dots> = take_bit 16 t" by (simp only: take_bit_eq_mask)
  also have "\<dots> = t mod 2 ^ 16" by (simp only: take_bit_eq_mod)
  finally show ?thesis by simp
qed

lemma fold_int_ops:
  "(drop_bit 16 t + (t AND 0xFFFF)) AND 0xFFFF = (t div 65536 + t mod 65536) mod 65536"
  for t :: int
  by (simp add: int_and_ffff drop_bit_eq_div)

lemma section_checksum_sum:
  "section_checksum s
     = ((\<Sum>k<length (take GBA_FOOTER_OFFSET s) div 4. uint (le32 (take GBA_FOOTER_OFFSET s) (k * 4))) div 65536
        + (\<Sum>k<length (take GBA_FOOTER_OFFSET s) div 4. uint (le32 (take GBA_FOOTER_OFFSET s) (k * 4))) mod 65536)
       mod 65536"
  unfolding section_checksum_def Let_def fold_int_ops
  by (simp only: slice_def words_total diff_zero drop_0)

lemma mod_shift_neq:
  fixes x c M :: int
  assumes "0 < c" "c < M"
  shows "(x + c) mod M \<noteq> x mod M"
proof
  assume "(x + c) mod M = x mod M"
  then have "M dvd (x + c) - x" by (simp only: mod_eq_dvd_iff)
  then have "M dvd c" by simp
  then have "M \<le> c" using assms(1) by (rule zdvd_imp_le)
  with assms(2) show False by simp
qed

lemma fold_shift_high:
  fixes t c M :: int
  assumes "0 < c" "c < M"
  shows "((t + M * c) div M + (t + M * c) mod M) mod M \<noteq> (t div M + t mod M) mod M"
proof -
  have M: "M \<noteq> 0" using assms by auto
  have "(t + M * c) div M = t div M + c" using M by simp
  moreover have "(t + M * c) mod M = t mod M" by simp
  ultimately have eq: "(t + M * c) div M + (t + M * c) mod M = (t div M + t mod M) + c" by simp
  show ?thesis unfolding eq by (rule mod_shift_neq [OF assms])
qed

lemma fold_shift_low:
  fixes t c M :: int
  assumes "0 < c" "c + 1 < M"
  shows "((t + c) div M + (t + c) mod M) mod M \<noteq> (t div M + t mod M) mod M"
proof -
  have M: "0 < M" using assms by auto
  define h where "h = t div M"
  define l where "l = t mod M"
  have t: "t = M * h + l" and l: "0 \<le> l" "l < M"
    using M by (simp_all add: h_def l_def)
  show ?thesis
  proof (cases "l + c < M")
    case True
    have eq: "t + c = M * h + (l + c)" using t by simp
    have "(t + c) div M = h" "(t + c) mod M = l + c"
      using int_div_pos_eq [OF eq] int_mod_pos_eq [OF eq] True l assms by simp_all
    then have eq': "(t + c) div M + (t + c) mod M = (h + l) + c" by simp
    have "c < M" using assms by simp
    then have "((h + l) + c) mod M \<noteq> (h + l) mod M"
      by (rule mod_shift_neq [OF assms(1)])
    then show ?thesis unfolding eq' by (simp add: h_def l_def)
  next
    case False
    have eq: "t + c = M * (h + 1) + (l + c - M)" using t by (simp add: algebra_simps)
    have "(t + c) div M = h + 1" "(t + c) mod M = l + c - M"
      using int_div_pos_eq [OF eq] int_mod_pos_eq [OF eq] False l assms by simp_all
    then have "(t + c) div M + (t + c) mod M = (h + l) + (c + 1) - M" by simp
    then have eq': "((t + c) div M + (t + c) mod M) mod M = ((h + l) + (c + 1)) mod M"
      by (simp only: minus_mod_self2)
    have "0 < c + 1" using assms by simp
    then have "((h + l) + (c + 1)) mod M \<noteq> (h + l) mod M"
      using assms(2) by (rule mod_shift_neq)
    then show ?thesis unfolding eq' by (simp add: h_def l_def)
  qed
qed

lemma fold_pow2:
  fixes t :: int
  assumes "m < 32"
  shows "((t + 2 ^ m) div 65536 + (t + 2 ^ m) mod 65536) mod 65536
           \<noteq> (t div 65536 + t mod 65536) mod 65536"
proof (cases "m < 16")
  case True
  then have "(2 :: int) ^ m \<le> 2 ^ 15" by (intro power_increasing) simp_all
  then have "(2 :: int) ^ m + 1 < 65536" by simp
  moreover have "(0 :: int) < 2 ^ m" by simp
  ultimately show ?thesis by (intro fold_shift_low)
next
  case False
  define r where "r = m - 16"
  have r: "m = 16 + r" "r < 16" using False assms by (simp_all add: r_def)
  have "(2 :: int) ^ r \<le> 2 ^ 15" using r by (intro power_increasing) simp_all
  then have "(2 :: int) ^ r < 65536" by simp
  moreover have "(0 :: int) < 2 ^ r" by simp
  moreover have "(2 :: int) ^ m = 65536 * 2 ^ r" by (simp add: r power_add)
  ultimately show ?thesis using fold_shift_high [of "2 ^ r" 65536 t] by simp
qed


lemma uint_flip_bit:
  fixes w :: "32 word"
  assumes "m < 32"
  shows "uint (w XOR push_bit m 1) = (if bit w m then uint w - 2 ^ m else uint w + 2 ^ m)"
proof -
  have lt: "(2 :: int) ^ m < 2 ^ 32" using assms by (intro power_strict_increasing) simp_all
  have "uint (push_bit m (1 :: 32 word)) = take_bit 32 ((2 :: int) ^ m)"
    using unsigned_push_bit_eq [of m "1 :: 32 word", where ?'a = int] by simp
  also have "\<dots> = push_bit m 1"
    using lt assms by (simp add: take_bit_int_eq_self)
  finally have "uint (push_bit m (1 :: 32 word)) = push_bit m 1" .
  then have p: "uint (2 ^ m :: 32 word) = 2 ^ m" by simp
  have "uint (w XOR push_bit m 1) = flip_bit m (uint w)"
    by (simp add: uint_xor p flip_bit_eq_xor)
  also have "\<dots> = (if bit w m then uint w - 2 ^ m else uint w + 2 ^ m)"
    using assms by (simp add: flip_bit_eq_if set_bit_eq unset_bit_eq bit_uint_iff)
  finally show ?thesis .
qed

lemma byte_of_push_bit:
  assumes "r < 4" "m < 4" "b < 8"
  shows "byte_of (push_bit (8 * r + b) 1) m = (if m = r then push_bit b 1 else 0)"
  unfolding byte_of_def
  using assms by (intro bit_word_eqI) (auto simp: bit_simps)

lemma byte_of_pow2:
  assumes "r < 4" "m < 4" "b < 8"
  shows "byte_of (2 ^ (8 * r + b)) m = (if m = r then 2 ^ b else 0)"
  using byte_of_push_bit [OF assms] by simp

lemma le32_update_in:
  assumes "off + r < length d" "r < 4" "b < 8"
  shows "le32 (d[off + r := d ! (off + r) XOR push_bit b 1]) off
           = le32 d off XOR push_bit (8 * r + b) 1"
proof (rule le32_of_bytes)
  fix m :: nat assume m: "m < 4"
  show "d[off + r := d ! (off + r) XOR push_bit b 1] ! (off + m)
          = byte_of (le32 d off XOR push_bit (8 * r + b) 1) m"
    using assms m
    by (simp add: byte_of_xor byte_of_le32 byte_of_pow2 nth_list_update)
qed

lemma le32_update_out:
  "j < off \<or> off + 4 \<le> j \<Longrightarrow> le32 (d[j := x]) off = le32 d off"
  by (auto simp: le32_def)

lemma words_sum_flip:
  assumes j: "j < n * 4" and n: "n * 4 \<le> length da" and b: "b < 8"
  shows "\<exists>m<32. (\<Sum>k<n. uint (le32 (da[j := da ! j XOR push_bit b 1]) (k * 4)))
                  = (\<Sum>k<n. uint (le32 da (k * 4))) + 2 ^ m
              \<or> (\<Sum>k<n. uint (le32 (da[j := da ! j XOR push_bit b 1]) (k * 4))) + 2 ^ m
                  = (\<Sum>k<n. uint (le32 da (k * 4)))"
proof -
  define k0 where "k0 = j div 4"
  define r where "r = j mod 4"
  define da' where "da' = da[j := da ! j XOR push_bit b 1]"
  have jr: "j = k0 * 4 + r" and r: "r < 4" and k0: "k0 < n"
    using j by (simp_all add: k0_def r_def less_mult_imp_div_less)
  have k0s: "k0 \<in> {..<n}" using k0 by simp
  define m where "m = 8 * r + b"
  have m: "m < 32" using r b by (simp add: m_def)
  have same: "uint (le32 da' (k * 4)) = uint (le32 da (k * 4))" if "k \<in> {..<n} - {k0}" for k
  proof -
    from that have "k \<noteq> k0" by simp
    then have "j < k * 4 \<or> k * 4 + 4 \<le> j" using jr r by (cases "k < k0") auto
    then show ?thesis unfolding da'_def by (simp add: le32_update_out)
  qed
  have changed: "le32 da' (k0 * 4) = le32 da (k0 * 4) XOR push_bit m 1"
    unfolding da'_def m_def jr
    using le32_update_in [of "k0 * 4" r da b] j n r b jr by simp
  let ?w = "le32 da (k0 * 4)"
  have split: "(\<Sum>k<n. uint (le32 x (k * 4)))
                 = uint (le32 x (k0 * 4)) + (\<Sum>k\<in>{..<n} - {k0}. uint (le32 x (k * 4)))" for x
    using k0s by (simp add: sum.remove)
  have rest: "(\<Sum>k\<in>{..<n} - {k0}. uint (le32 da' (k * 4)))
                = (\<Sum>k\<in>{..<n} - {k0}. uint (le32 da (k * 4)))"
    by (rule sum.cong) (simp_all add: same)
  have "(\<Sum>k<n. uint (le32 da' (k * 4))) = (\<Sum>k<n. uint (le32 da (k * 4))) + 2 ^ m
      \<or> (\<Sum>k<n. uint (le32 da' (k * 4))) + 2 ^ m = (\<Sum>k<n. uint (le32 da (k * 4)))"
    unfolding split [of da'] split [of da] rest changed uint_flip_bit [OF m]
    by (cases "bit ?w m") simp_all
  with m show ?thesis unfolding da'_def by blast
qed

lemma section_checksum_flip:
  assumes len: "GBA_FOOTER_OFFSET \<le> length s" and j: "j < GBA_FOOTER_OFFSET" and b: "b < 8"
  shows "section_checksum (s[j := s ! j XOR push_bit b 1]) \<noteq> section_checksum s"
proof -
  define da where "da = take GBA_FOOTER_OFFSET s"
  have dl: "length da = GBA_FOOTER_OFFSET" using len by (simp add: da_def)
  have n: "length da div 4 = 1022" by (simp add: dl)
  have upd: "take GBA_FOOTER_OFFSET (s[j := s ! j XOR push_bit b 1]) = da[j := da ! j XOR push_bit b 1]"
    using j by (simp add: da_def take_update_swap)
  have dl': "length (da[j := da ! j XOR push_bit b 1]) div 4 = 1022" by (simp add: dl)
  define T where "T = (\<Sum>k<1022. uint (le32 da (k * 4)))"
  define T' where "T' = (\<Sum>k<1022. uint (le32 (da[j := da ! j XOR push_bit b 1]) (k * 4)))"
  have c: "section_checksum s = (T div 65536 + T mod 65536) mod 65536"
    unfolding section_checksum_sum da_def [symmetric] n T_def ..
  have c': "section_checksum (s[j := s ! j XOR push_bit b 1]) = (T' div 65536 + T' mod 65536) mod 65536"
    unfolding section_checksum_sum upd dl' T'_def ..
  from words_sum_flip [of j 1022 da b] j dl b
  obtain m where m: "m < 32" and d: "T' = T + 2 ^ m \<or> T' + 2 ^ m = T"
    unfolding T_def T'_def by auto
  from d show ?thesis
  proof
    assume "T' = T + 2 ^ m"
    then show ?thesis unfolding c c' using fold_pow2 [OF m, of T] by simp
  next
    assume "T' + 2 ^ m = T"
    then show ?thesis unfolding c c' using fold_pow2 [OF m, of T'] by simp
  qed
qed

lemma section_checksum_range: "0 \<le> section_checksum s \<and> section_checksum s < 2 ^ 16"
  unfolding section_checksum_sum by simp

text \<open>
  C8. The checksum of a section is a number below \<open>2^16\<close> that depends on nothing but
  the section's first \<open>0xFF8\<close> bytes, and flipping one bit of one of those bytes always
  changes it.
\<close>

theorem section_checksum_sensitive:
  "0 \<le> section_checksum s \<and> section_checksum s < 2 ^ 16 \<and>
   (take GBA_FOOTER_OFFSET s = take GBA_FOOTER_OFFSET t \<longrightarrow>
      section_checksum s = section_checksum t) \<and>
   (GBA_FOOTER_OFFSET \<le> length s \<and> j < GBA_FOOTER_OFFSET \<and> b < 8 \<longrightarrow>
      section_checksum (s[j := s ! j XOR push_bit b 1]) \<noteq> section_checksum s)"
proof (intro conjI impI)
  show "0 \<le> section_checksum s" "section_checksum s < 2 ^ 16"
    using section_checksum_range [of s] by simp_all
  show "section_checksum s = section_checksum t"
    if "take GBA_FOOTER_OFFSET s = take GBA_FOOTER_OFFSET t"
    using that by (simp add: section_checksum_def slice_def)
  show "section_checksum (s[j := s ! j XOR push_bit b 1]) \<noteq> section_checksum s"
    if "GBA_FOOTER_OFFSET \<le> length s \<and> j < GBA_FOOTER_OFFSET \<and> b < 8"
    using that by (intro section_checksum_flip) simp_all
qed

theorem section_checksum_sensitive_witness:
  "GBA_FOOTER_OFFSET \<le> length (replicate GBA_SECTION_SIZE (0 :: byte)) \<and>
   section_checksum (replicate GBA_SECTION_SIZE 0)
     = section_checksum (replicate GBA_FOOTER_OFFSET 0 @ [1, 2, 3, 4, 5, 6, 7, 8]) \<and>
   section_checksum ((replicate GBA_SECTION_SIZE 0)[5 := 8]) \<noteq> section_checksum (replicate GBA_SECTION_SIZE 0)"
  using section_checksum_sensitive
          [of "replicate GBA_SECTION_SIZE 0" "replicate GBA_FOOTER_OFFSET 0 @ [1, 2, 3, 4, 5, 6, 7, 8]" 5 3]
  by simp

section \<open>Lemmas: assembling a slot\<close>

lemma slice_length: "b \<le> length d \<Longrightarrow> length (slice d a b) = b - a"
  by (simp add: slice_def)

lemma parse_slot_loop_append:
  "\<forall>i\<in>set xs. offset + i * GBA_SECTION_SIZE + GBA_SECTION_SIZE \<le> length data \<Longrightarrow>
   parse_slot_loop data offset (xs @ ys) acc
     = parse_slot_loop data offset ys (parse_slot_loop data offset xs acc)"
  by (induction xs arbitrary: acc) (simp_all add: Let_def)

lemma parse_slot_loop_break:
  "ys = [] \<or> offset + hd ys * GBA_SECTION_SIZE + GBA_SECTION_SIZE > length data \<Longrightarrow>
   parse_slot_loop data offset ys acc = acc"
  by (cases ys) (auto simp: Let_def)

lemma parse_slot_loop_fold:
  "\<forall>i\<in>set xs. offset + i * GBA_SECTION_SIZE + GBA_SECTION_SIZE \<le> length data \<Longrightarrow>
   parse_slot_loop data offset xs acc
     = fold (\<lambda>i secs.
               if section_id_of (slot_section data offset i) > 13 then secs
               else AList.update (section_id_of (slot_section data offset i))
                                 (slot_section data offset i) secs)
            xs acc"
  by (induction xs arbitrary: acc) (simp_all add: Let_def slot_section_def section_id_of_def)

lemma parse_slot_loop_prefix:
  "parse_slot_loop data offset [0..<GBA_SECTION_COUNT] acc
     = parse_slot_loop data offset
         [0..<min GBA_SECTION_COUNT ((length data - offset) div GBA_SECTION_SIZE)] acc"
proof -
  define n where "n = min GBA_SECTION_COUNT ((length data - offset) div GBA_SECTION_SIZE)"
  have split: "[0..<GBA_SECTION_COUNT] = [0..<n] @ [n..<GBA_SECTION_COUNT]"
    unfolding n_def by (metis le0 min.cobounded1 upt_add_eq_append le_add_diff_inverse)
  have inr: "\<forall>i\<in>set [0..<n]. offset + i * GBA_SECTION_SIZE + GBA_SECTION_SIZE \<le> length data"
  proof
    fix i assume "i \<in> set [0..<n]"
    then have "i < (length data - offset) div GBA_SECTION_SIZE" by (simp add: n_def)
    then have "Suc i \<le> (length data - offset) div GBA_SECTION_SIZE" by simp
    then have "Suc i * GBA_SECTION_SIZE \<le> length data - offset"
      by (simp only: less_eq_div_iff_mult_less_eq [OF zero_less_numeral])
    then show "offset + i * GBA_SECTION_SIZE + GBA_SECTION_SIZE \<le> length data" by simp
  qed
  have brk: "[n..<GBA_SECTION_COUNT] = [] \<or>
             offset + hd [n..<GBA_SECTION_COUNT] * GBA_SECTION_SIZE + GBA_SECTION_SIZE > length data"
  proof (cases "n < GBA_SECTION_COUNT")
    case True
    then have n: "n = (length data - offset) div GBA_SECTION_SIZE" by (simp add: n_def)
    have hd: "hd [n..<GBA_SECTION_COUNT] = n" using True by (simp add: upt_conv_Cons)
    have "length data - offset < n * GBA_SECTION_SIZE + GBA_SECTION_SIZE"
      unfolding n using dividend_less_div_times [of GBA_SECTION_SIZE "length data - offset"]
      by simp
    then have "length data < offset + n * GBA_SECTION_SIZE + GBA_SECTION_SIZE" by linarith
    then have "offset + hd [n..<GBA_SECTION_COUNT] * GBA_SECTION_SIZE + GBA_SECTION_SIZE
                       > length data"
      unfolding hd .
    then show ?thesis by (rule disjI2)
  next
    case False
    then show ?thesis by simp
  qed
  show ?thesis
    unfolding split parse_slot_loop_append [OF inr] parse_slot_loop_break [OF brk]
    by (simp add: n_def)
qed


lemma slot_fold_empty:
  "fold (\<lambda>i secs. if f i > (13 :: nat) then secs else AList.update (f i) (g i) secs) xs acc = []
     \<longleftrightarrow> acc = [] \<and> (\<forall>i\<in>set xs. f i > 13)"
proof (induction xs arbitrary: acc)
  case Nil
  then show ?case by simp
next
  case (Cons x xs)
  have "AList.update k v al \<noteq> []" for k :: nat and v :: bytes and al
    by (cases al) auto
  with Cons show ?case by auto
qed

lemma slot_fold_entries:
  "map_of (fold (\<lambda>i secs. if f i > (13 :: nat) then secs else AList.update (f i) (g i) secs) xs acc) k
     = Some sec \<Longrightarrow>
   map_of acc k = Some sec \<or> (\<exists>i\<in>set xs. sec = g i \<and> f i = k \<and> k \<le> 13)"
proof (induction xs arbitrary: acc)
  case Nil
  then show ?case by simp
next
  case (Cons x xs)
  show ?case
  proof (cases "f x > 13")
    case True
    with Cons.prems Cons.IH [of acc] show ?thesis by auto
  next
    case False
    with Cons.prems Cons.IH [of "AList.update (f x) (g x) acc"] show ?thesis
      by (auto simp: update_conv' split: if_splits)
  qed
qed

lemma slot_fold_retains:
  "i \<in> set xs \<Longrightarrow> f i \<le> (13 :: nat) \<Longrightarrow>
   \<exists>j\<in>set xs. f j = f i \<and>
     map_of (fold (\<lambda>i secs. if f i > 13 then secs else AList.update (f i) (g i) secs) xs acc) (f i)
       = Some (g j)"
proof (induction xs arbitrary: i acc)
  case Nil
  then show ?case by simp
next
  case (Cons x xs)
  let ?step = "\<lambda>i secs. if f i > 13 then secs else AList.update (f i) (g i) secs"
  show ?case
  proof (cases "\<exists>j\<in>set xs. f j = f i")
    case True
    then obtain j where j: "j \<in> set xs" "f j = f i" by blast
    then have "f j \<le> 13" using Cons.prems(2) by simp
    from Cons.IH [OF j(1) this, of "?step x acc"] j(2) show ?thesis by auto
  next
    case False
    with Cons.prems have ix: "i = x" by auto
    have keep: "map_of (fold ?step xs acc') (f i) = Some v"
      if "map_of acc' (f i) = Some v" for acc' v
      using that False by (induction xs arbitrary: acc') (auto simp: update_conv')
    have "map_of (fold ?step xs (?step x acc)) (f i) = Some (g x)"
      using Cons.prems(2) ix by (intro keep) (auto simp: update_conv')
    then show ?thesis using ix by auto
  qed
qed

lemma section_in_range:
  "offset + i * GBA_SECTION_SIZE + GBA_SECTION_SIZE \<le> length data
     \<longleftrightarrow> i < (length data - offset) div GBA_SECTION_SIZE"
proof -
  have "i < (length data - offset) div GBA_SECTION_SIZE
          \<longleftrightarrow> Suc i \<le> (length data - offset) div GBA_SECTION_SIZE" by auto
  also have "\<dots> \<longleftrightarrow> Suc i * GBA_SECTION_SIZE \<le> length data - offset"
    by (simp only: less_eq_div_iff_mult_less_eq [OF zero_less_numeral])
  also have "\<dots> \<longleftrightarrow> offset + i * GBA_SECTION_SIZE + GBA_SECTION_SIZE \<le> length data"
    by auto
  finally show ?thesis by simp
qed

lemma parse_slot_loop_all:
  "parse_slot_loop data offset [0..<GBA_SECTION_COUNT] []
     = fold (\<lambda>i secs.
               if section_id_of (slot_section data offset i) > 13 then secs
               else AList.update (section_id_of (slot_section data offset i))
                                 (slot_section data offset i) secs)
            [0..<min GBA_SECTION_COUNT ((length data - offset) div GBA_SECTION_SIZE)] []"
  unfolding parse_slot_loop_prefix
  by (rule parse_slot_loop_fold) (simp add: section_in_range)

lemma in_prefix:
  "i \<in> set [0..<min GBA_SECTION_COUNT ((length data - offset) div GBA_SECTION_SIZE)]
     \<longleftrightarrow> i < GBA_SECTION_COUNT \<and> offset + i * GBA_SECTION_SIZE + GBA_SECTION_SIZE \<le> length data"
  by (simp add: section_in_range)

lemma parse_slot_None:
  "parse_slot data offset = None \<longleftrightarrow>
     (\<forall>i<GBA_SECTION_COUNT. offset + i * GBA_SECTION_SIZE + GBA_SECTION_SIZE \<le> length data \<longrightarrow>
        section_id_of (slot_section data offset i) > 13)"
  unfolding parse_slot_def Let_def parse_slot_loop_all
  by (simp only: if_split slot_fold_empty in_prefix) (auto simp: section_in_range)

lemma parse_slot_entries:
  assumes "parse_slot data offset = Some secs" "map_of secs k = Some sec"
  shows "\<exists>i<GBA_SECTION_COUNT. offset + i * GBA_SECTION_SIZE + GBA_SECTION_SIZE \<le> length data \<and>
           sec = slot_section data offset i \<and> section_id_of sec = k \<and> k \<le> 13 \<and>
           length sec = GBA_SECTION_SIZE"
proof -
  from assms(1) have secs: "secs = fold (\<lambda>i secs.
               if section_id_of (slot_section data offset i) > 13 then secs
               else AList.update (section_id_of (slot_section data offset i))
                                 (slot_section data offset i) secs)
            [0..<min GBA_SECTION_COUNT ((length data - offset) div GBA_SECTION_SIZE)] []"
    unfolding parse_slot_def Let_def parse_slot_loop_all by (auto split: if_splits)
  from slot_fold_entries [OF assms(2) [unfolded secs]]
  obtain i where i: "i \<in> set [0..<min GBA_SECTION_COUNT ((length data - offset) div GBA_SECTION_SIZE)]"
      and s: "sec = slot_section data offset i" "section_id_of (slot_section data offset i) = k" "k \<le> 13"
    by auto
  from i have r: "i < GBA_SECTION_COUNT" "offset + i * GBA_SECTION_SIZE + GBA_SECTION_SIZE \<le> length data"
    unfolding in_prefix by simp_all
  have "length sec = GBA_SECTION_SIZE" using r(2) by (simp add: s(1) slot_section_def slice_def)
  with r s show ?thesis by auto
qed

lemma parse_slot_retains:
  assumes "i < GBA_SECTION_COUNT" "offset + i * GBA_SECTION_SIZE + GBA_SECTION_SIZE \<le> length data"
    and "section_id_of (slot_section data offset i) \<le> 13"
  shows "\<exists>secs j. parse_slot data offset = Some secs \<and> j < GBA_SECTION_COUNT \<and>
           offset + j * GBA_SECTION_SIZE + GBA_SECTION_SIZE \<le> length data \<and>
           section_id_of (slot_section data offset j) = section_id_of (slot_section data offset i) \<and>
           map_of secs (section_id_of (slot_section data offset i)) = Some (slot_section data offset j)"
proof -
  let ?xs = "[0..<min GBA_SECTION_COUNT ((length data - offset) div GBA_SECTION_SIZE)]"
  let ?secs = "fold (\<lambda>i secs.
               if section_id_of (slot_section data offset i) > 13 then secs
               else AList.update (section_id_of (slot_section data offset i))
                                 (slot_section data offset i) secs) ?xs []"
  from assms have i: "i \<in> set ?xs" unfolding in_prefix by simp
  from slot_fold_retains [of i ?xs "\<lambda>i. section_id_of (slot_section data offset i)"
                             "slot_section data offset" "[]", OF i assms(3)]
  obtain j where j: "j \<in> set ?xs"
      "section_id_of (slot_section data offset j) = section_id_of (slot_section data offset i)"
      "map_of ?secs (section_id_of (slot_section data offset i)) = Some (slot_section data offset j)"
    by auto
  from j(3) have "?secs \<noteq> []" by auto
  then have "parse_slot data offset = Some ?secs"
    unfolding parse_slot_def Let_def parse_slot_loop_all by simp
  moreover from j(1) have "j < GBA_SECTION_COUNT"
      "offset + j * GBA_SECTION_SIZE + GBA_SECTION_SIZE \<le> length data"
    unfolding in_prefix by simp_all
  ultimately show ?thesis using j(2,3) by blast
qed

lemma slot_fold_skip:
  "\<forall>i\<in>set xs. f i > (13 :: nat) \<Longrightarrow>
   fold (\<lambda>i secs. if f i > 13 then secs else AList.update (f i) (g i) secs) xs acc = acc"
  by (induction xs arbitrary: acc) auto

lemma parse_slot_single:
  assumes first: "offset + GBA_SECTION_SIZE \<le> length data"
      "section_id_of (slot_section data offset 0) \<le> 13"
    and others: "\<forall>i. 1 \<le> i \<and> i < GBA_SECTION_COUNT \<and>
                   offset + i * GBA_SECTION_SIZE + GBA_SECTION_SIZE \<le> length data \<longrightarrow>
                   section_id_of (slot_section data offset i) > 13"
  shows "parse_slot data offset
           = Some [(section_id_of (slot_section data offset 0), slot_section data offset 0)]"
proof -
  define n where "n = min GBA_SECTION_COUNT ((length data - offset) div GBA_SECTION_SIZE)"
  have "0 \<in> set [0..<n]" unfolding n_def in_prefix using first(1) by simp
  then have n: "[0..<n] = 0 # [Suc 0..<n]" by (simp add: upt_conv_Cons)
  have skip: "\<forall>i\<in>set [Suc 0..<n]. section_id_of (slot_section data offset i) > 13"
  proof
    fix i assume i: "i \<in> set [Suc 0..<n]"
    then have "i \<in> set [0..<n]" by simp
    then have "i < GBA_SECTION_COUNT" "offset + i * GBA_SECTION_SIZE + GBA_SECTION_SIZE \<le> length data"
      unfolding n_def in_prefix by simp_all
    moreover have "1 \<le> i" using i by simp
    ultimately show "section_id_of (slot_section data offset i) > 13" using others by blast
  qed
  show ?thesis
    unfolding parse_slot_def Let_def parse_slot_loop_all n_def [symmetric] n
    using first(2) by (simp add: slot_fold_skip [OF skip])
qed

section \<open>What a slot holds (C7)\<close>

lemma up8_16: "unat (ucast lo :: 16 word) = unat lo" for lo :: byte
proof -
  have "uint (ucast lo :: 16 word) = uint lo" by (rule uint_up_ucast) (simp add: is_up)
  then show ?thesis by (simp only: unat_eq_nat_uint)
qed

lemma one_section_slot:
  assumes "length pre = GBA_FOOTER_OFFSET" "lo \<le> 13"
  shows "parse_slot (pre @ [lo, 0, c0, c1, x0, x1, x2, x3]) 0
           = Some [(unat lo, pre @ [lo, 0, c0, c1, x0, x1, x2, x3])]"
proof -
  let ?d = "pre @ [lo, 0, c0, c1, x0, x1, x2, x3]"
  have sec: "slot_section ?d 0 0 = ?d" using assms(1) by (simp add: slot_section_def slice_def)
  have id: "section_id_of ?d = unat lo"
    using assms(1) by (simp add: section_id_of_def le16_def nth_append up8_16)
  have le: "unat lo \<le> 13" using assms(2) by (simp add: word_le_nat_alt)
  have len: "length ?d = GBA_SECTION_SIZE" using assms(1) by simp
  have "parse_slot ?d 0 = Some [(section_id_of (slot_section ?d 0 0), slot_section ?d 0 0)]"
  proof (rule parse_slot_single)
    show "0 + GBA_SECTION_SIZE \<le> length ?d" unfolding len by simp
    show "section_id_of (slot_section ?d 0 0) \<le> 13" unfolding sec id by (rule le)
    show "\<forall>i. 1 \<le> i \<and> i < GBA_SECTION_COUNT \<and>
            0 + i * GBA_SECTION_SIZE + GBA_SECTION_SIZE \<le> length ?d \<longrightarrow>
            section_id_of (slot_section ?d 0 i) > 13"
      unfolding len by auto
  qed
  then show ?thesis unfolding sec id .
qed


lemma le32_zeros: "off + 4 \<le> n \<Longrightarrow> le32 (replicate n 0) off = 0"
  by (simp add: le32_def)

lemma section_checksum_zeros:
  assumes "take GBA_FOOTER_OFFSET s = replicate GBA_FOOTER_OFFSET 0"
  shows "section_checksum s = 0"
proof -
  have z: "(\<Sum>k<1022. uint (le32 (replicate GBA_FOOTER_OFFSET 0) (k * 4))) = 0"
    by (rule sum.neutral) (simp add: le32_zeros)
  have n: "length (replicate GBA_FOOTER_OFFSET (0 :: byte)) div 4 = 1022" by simp
  show ?thesis unfolding section_checksum_sum assms n z by simp
qed

lemma le16_footer_checksum:
  "length pre = GBA_FOOTER_OFFSET \<Longrightarrow>
   le16 (pre @ [i0, i1, c0, c1, x0, x1, x2, x3]) GBA_CHECKSUM_OFF = le16 [c0, c1] 0"
  by (simp add: le16_def nth_append)

lemma verify_zero_section:
  "verify_section_checksum (replicate GBA_FOOTER_OFFSET 0 @ [i0, i1, c0, c1, x0, x1, x2, x3])
     \<longleftrightarrow> le16 [c0, c1] 0 = 0"
proof -
  let ?s = "replicate GBA_FOOTER_OFFSET 0 @ [i0, i1, c0, c1, x0, x1, x2, x3]"
  have c: "section_checksum ?s = 0" by (rule section_checksum_zeros) simp
  have u: "unpack_le16 ?s GBA_CHECKSUM_OFF = Some (le16 [c0, c1] 0)"
    by (simp add: unpack_le16_def le16_footer_checksum)
  have "(0 = uint (le16 [c0, c1] 0)) = (le16 [c0, c1] 0 = 0)"
    using uint_0_iff [of "le16 [c0, c1] 0"] by auto
  then show ?thesis unfolding verify_section_checksum_def u c by simp
qed

text \<open>
  C7, as the spec has it, fails: the slot holds the section bytes under the section id
  and no flag beside them. A section of zero bytes whose footer stores the checksum 1
  fails the check (the recomputed checksum is 0), one that stores 0 passes it, and the
  slots built from the two have the same shape.
\<close>

theorem slot_entry_without_flag_counterexample:
  "parse_slot (replicate GBA_FOOTER_OFFSET 0 @ [0, 0, 1, 0, 0, 0, 0, 0]) 0
     = Some [(0, replicate GBA_FOOTER_OFFSET 0 @ [0, 0, 1, 0, 0, 0, 0, 0])] \<and>
   \<not> verify_section_checksum (replicate GBA_FOOTER_OFFSET 0 @ [0, 0, 1, 0, 0, 0, 0, 0]) \<and>
   parse_slot (replicate GBA_FOOTER_OFFSET 0 @ [0, 0, 0, 0, 0, 0, 0, 0]) 0
     = Some [(0, replicate GBA_FOOTER_OFFSET 0 @ [0, 0, 0, 0, 0, 0, 0, 0])] \<and>
   verify_section_checksum (replicate GBA_FOOTER_OFFSET 0 @ [0, 0, 0, 0, 0, 0, 0, 0])"
proof -
  have a: "parse_slot (replicate GBA_FOOTER_OFFSET 0 @ [0, 0, 1, 0, 0, 0, 0, 0]) 0
     = Some [(0, replicate GBA_FOOTER_OFFSET 0 @ [0, 0, 1, 0, 0, 0, 0, 0])]"
    using one_section_slot [of "replicate GBA_FOOTER_OFFSET 0" 0 1 0 0 0 0 0] by simp
  have b: "parse_slot (replicate GBA_FOOTER_OFFSET 0 @ [0, 0, 0, 0, 0, 0, 0, 0]) 0
     = Some [(0, replicate GBA_FOOTER_OFFSET 0 @ [0, 0, 0, 0, 0, 0, 0, 0])]"
    using one_section_slot [of "replicate GBA_FOOTER_OFFSET 0" 0 0 0 0 0 0 0] by simp
  have c: "\<not> verify_section_checksum (replicate GBA_FOOTER_OFFSET 0 @ [0, 0, 1, 0, 0, 0, 0, 0])"
    unfolding verify_zero_section by (simp add: le16_def)
  have d: "verify_section_checksum (replicate GBA_FOOTER_OFFSET 0 @ [0, 0, 0, 0, 0, 0, 0, 0])"
    unfolding verify_zero_section by (simp add: le16_def)
  from a b c d show ?thesis by (simp only: simp_thms)
qed

text \<open>
  C7, amended. After slot assembly the slot maps each retained section id, which is at
  most 13, to the \<open>0x1000\<close> bytes of a section of the slot whose footer carries that id,
  and to nothing else: no checksum-valid flag is stored. The checksum test holds
  exactly when the section reaches its stored checksum and the recomputed fold
  checksum equals it; its outcome is only logged. Every section in the buffer whose
  footer id is at most 13 leaves its id in the slot, whatever its checksum.
\<close>

theorem slot_sections_retained:
  "(verify_section_checksum sec \<longleftrightarrow>
      GBA_CHECKSUM_OFF + 2 \<le> length sec \<and>
      section_checksum sec = uint (le16 sec GBA_CHECKSUM_OFF)) \<and>
   (parse_slot data offset = Some secs \<and> map_of secs k = Some sec' \<longrightarrow>
      (\<exists>i<GBA_SECTION_COUNT.
         offset + i * GBA_SECTION_SIZE + GBA_SECTION_SIZE \<le> length data \<and>
         sec' = slot_section data offset i \<and> section_id_of sec' = k \<and> k \<le> 13 \<and>
         length sec' = GBA_SECTION_SIZE)) \<and>
   (i < GBA_SECTION_COUNT \<and> offset + i * GBA_SECTION_SIZE + GBA_SECTION_SIZE \<le> length data \<and>
    section_id_of (slot_section data offset i) \<le> 13 \<longrightarrow>
      (\<exists>secs j. parse_slot data offset = Some secs \<and> j < GBA_SECTION_COUNT \<and>
         offset + j * GBA_SECTION_SIZE + GBA_SECTION_SIZE \<le> length data \<and>
         section_id_of (slot_section data offset j) = section_id_of (slot_section data offset i) \<and>
         map_of secs (section_id_of (slot_section data offset i))
           = Some (slot_section data offset j)))"
proof (intro conjI impI)
  show "verify_section_checksum sec \<longleftrightarrow>
      GBA_CHECKSUM_OFF + 2 \<le> length sec \<and>
      section_checksum sec = uint (le16 sec GBA_CHECKSUM_OFF)"
    by (simp add: verify_section_checksum_def unpack_le16_def)
  show "\<exists>i<GBA_SECTION_COUNT.
         offset + i * GBA_SECTION_SIZE + GBA_SECTION_SIZE \<le> length data \<and>
         sec' = slot_section data offset i \<and> section_id_of sec' = k \<and> k \<le> 13 \<and>
         length sec' = GBA_SECTION_SIZE"
    if "parse_slot data offset = Some secs \<and> map_of secs k = Some sec'"
    using that parse_slot_entries [of data offset secs k sec'] by blast
  show "\<exists>secs j. parse_slot data offset = Some secs \<and> j < GBA_SECTION_COUNT \<and>
         offset + j * GBA_SECTION_SIZE + GBA_SECTION_SIZE \<le> length data \<and>
         section_id_of (slot_section data offset j) = section_id_of (slot_section data offset i) \<and>
         map_of secs (section_id_of (slot_section data offset i))
           = Some (slot_section data offset j)"
    if "i < GBA_SECTION_COUNT \<and> offset + i * GBA_SECTION_SIZE + GBA_SECTION_SIZE \<le> length data \<and>
        section_id_of (slot_section data offset i) \<le> 13"
    using that parse_slot_retains [of i offset data] by blast
qed

theorem slot_sections_retained_witness:
  "\<not> verify_section_checksum (replicate GBA_FOOTER_OFFSET 0 @ [0, 0, 1, 0, 0, 0, 0, 0]) \<and>
   (\<exists>secs. parse_slot (replicate GBA_FOOTER_OFFSET 0 @ [0, 0, 1, 0, 0, 0, 0, 0]) 0 = Some secs \<and>
      map_of secs 0 = Some (replicate GBA_FOOTER_OFFSET 0 @ [0, 0, 1, 0, 0, 0, 0, 0]))"
proof -
  define d :: bytes where "d = replicate GBA_FOOTER_OFFSET 0 @ [0, 0, 1, 0, 0, 0, 0, 0]"
  have sec: "slot_section d 0 0 = d" by (simp add: d_def slot_section_def slice_def)
  have id: "section_id_of d = 0" by (simp add: d_def section_id_of_def le16_def nth_append)
  have len: "length d = GBA_SECTION_SIZE" by (simp add: d_def)
  have c: "section_checksum d = 0" by (rule section_checksum_zeros) (simp add: d_def)
  have "le16 d GBA_CHECKSUM_OFF = le16 [1, 0] 0"
    unfolding d_def by (rule le16_footer_checksum) simp
  then have l: "le16 d GBA_CHECKSUM_OFF = 1" by (simp add: le16_def)
  have v: "\<not> verify_section_checksum d"
    using slot_sections_retained [where sec = d, THEN conjunct1] unfolding c l by simp
  have hyp: "0 < GBA_SECTION_COUNT \<and> 0 + 0 * GBA_SECTION_SIZE + GBA_SECTION_SIZE \<le> length d \<and>
             section_id_of (slot_section d 0 0) \<le> 13"
    unfolding sec id len by simp
  from slot_sections_retained [where data = d and offset = 0 and i = 0,
                               THEN conjunct2, THEN conjunct2, THEN mp, OF hyp]
  obtain secs j where r: "parse_slot d 0 = Some secs"
      "0 + j * GBA_SECTION_SIZE + GBA_SECTION_SIZE \<le> length d"
      "map_of secs (section_id_of (slot_section d 0 0)) = Some (slot_section d 0 j)"
    by (elim exE conjE)
  from r(2) have "j = 0" unfolding len by simp
  with r(3) have "map_of secs 0 = Some d" unfolding sec id by (simp add: sec)
  with r(1) v show ?thesis unfolding d_def by blast
qed

section \<open>Invalid sections, invalid slots and the choice of a slot (C6)\<close>

lemma section_id_ff:
  "a + GBA_SECTION_SIZE \<le> n \<Longrightarrow>
   section_id_of (slice (replicate n 0xFF) a (a + GBA_SECTION_SIZE)) = 65535"
  by (simp add: section_id_of_def slice_def le16_def)

lemma parse_slot_all_ff: "parse_slot (replicate GBA_SLOT_SIZE 0xFF) 0 = None"
  unfolding parse_slot_None
  by (auto simp: slot_section_def section_id_ff)

lemma parse_save_data_no_slot:
  assumes "GBA_SLOT_SIZE \<le> length data" "parse_slot data 0 = None"
    "GBA_SAVE_SIZE \<le> length data \<longrightarrow> parse_slot data GBA_SLOT_SIZE = None"
  shows "parse_save_data cbrt data = Inl NoValidSlot"
  using assms by (simp add: parse_save_data_def pick_best_slot_def Let_def)

lemma parse_save_data_slot_a:
  assumes "GBA_SLOT_SIZE \<le> length data" "parse_slot data 0 = Some a"
    "GBA_SAVE_SIZE \<le> length data \<longrightarrow> parse_slot data GBA_SLOT_SIZE = None"
  shows "parse_save_data cbrt data
           = (case parse_trainer_info a 0 of
                None \<Rightarrow> Inl NoTrainerInfo
              | Some trainer \<Rightarrow>
                  Inr \<lparr>info = trainer, party = parse_party cbrt a, boxes = parse_pc_boxes cbrt a\<rparr>)"
  using assms by (simp add: parse_save_data_def pick_best_slot_def Let_def)

lemma parse_save_data_slot_b:
  assumes "GBA_SAVE_SIZE \<le> length data" "parse_slot data 0 = None"
    "parse_slot data GBA_SLOT_SIZE = Some b"
  shows "parse_save_data cbrt data
           = (case parse_trainer_info b 1 of
                None \<Rightarrow> Inl NoTrainerInfo
              | Some trainer \<Rightarrow>
                  Inr \<lparr>info = trainer, party = parse_party cbrt b, boxes = parse_pc_boxes cbrt b\<rparr>)"
  using assms by (simp add: parse_save_data_def pick_best_slot_def Let_def)


lemma two_slot_image:
  fixes foot :: bytes
  assumes foot: "foot = replicate GBA_FOOTER_OFFSET 0 @ [0, 0, 0, 0, 3, 0, 0, 0]"
    and d: "d = replicate GBA_SLOT_SIZE 0xFF @ foot @ replicate 0x11000 0xFF"
  shows "parse_slot d 0 = None" and "parse_slot d GBA_SLOT_SIZE = Some [(0, foot)]"
    and "length d = GBA_SAVE_SIZE"
proof -
  have fl: "length foot = GBA_SECTION_SIZE" by (simp add: foot)
  show dl: "length d = GBA_SAVE_SIZE" by (simp add: d fl)
  have fid: "section_id_of foot = 0" by (simp add: foot section_id_of_def le16_def nth_append)
  have a: "slot_section d 0 i = slice (replicate GBA_SLOT_SIZE 0xFF) (i * GBA_SECTION_SIZE)
                                        (i * GBA_SECTION_SIZE + GBA_SECTION_SIZE)"
    if "i < GBA_SECTION_COUNT" for i
    using that by (simp add: d slot_section_def slice_def)
  show "parse_slot d 0 = None"
    unfolding parse_slot_None by (auto simp: a section_id_ff)
  have b0: "slot_section d GBA_SLOT_SIZE 0 = foot"
    by (simp add: d slot_section_def slice_def fl)
  have b: "slot_section d GBA_SLOT_SIZE i
             = slice (replicate 0x11000 0xFF) ((i - 1) * GBA_SECTION_SIZE)
                     ((i - 1) * GBA_SECTION_SIZE + GBA_SECTION_SIZE)"
    if "1 \<le> i" for i
  proof -
    have "GBA_SLOT_SIZE + i * GBA_SECTION_SIZE - GBA_SLOT_SIZE - GBA_SECTION_SIZE
            = (i - 1) * GBA_SECTION_SIZE"
      using that by (simp add: algebra_simps)
    then show ?thesis using that by (simp add: d slot_section_def slice_def fl)
  qed
  have "parse_slot d GBA_SLOT_SIZE
          = Some [(section_id_of (slot_section d GBA_SLOT_SIZE 0), slot_section d GBA_SLOT_SIZE 0)]"
  proof (rule parse_slot_single)
    show "GBA_SLOT_SIZE + GBA_SECTION_SIZE \<le> length d" unfolding dl by simp
    show "section_id_of (slot_section d GBA_SLOT_SIZE 0) \<le> 13" unfolding b0 fid by simp
    show "\<forall>i. 1 \<le> i \<and> i < GBA_SECTION_COUNT \<and>
            GBA_SLOT_SIZE + i * GBA_SECTION_SIZE + GBA_SECTION_SIZE \<le> length d \<longrightarrow>
            section_id_of (slot_section d GBA_SLOT_SIZE i) > 13"
      unfolding dl by (auto simp: b section_id_ff)
  qed
  then show "parse_slot d GBA_SLOT_SIZE = Some [(0, foot)]" unfolding b0 fid .
qed

lemma count_ones_0: "count_ones 0 = 0"
  by (simp add: count_ones_def)

lemma zero_section_contents:
  fixes foot :: bytes
  assumes foot: "foot = replicate GBA_FOOTER_OFFSET 0 @ [0, 0, 0, 0, 3, 0, 0, 0]"
  shows "parse_trainer_info [(0, foot)] n
           = Some \<lparr>game = RUBY, region = US, trainer_id = 0, secret_id = 0, play_time_h = 0,
                   play_time_m = 0, play_time_s = 0, money = 0, badges = 0, slot_used = n\<rparr>"
    and "parse_party cbrt [(0, foot)] = \<lparr>pokemon = [], count = 0\<rparr>"
    and "parse_pc_boxes cbrt [(0, foot)] = []"
proof -
  have fl: "length foot = GBA_SECTION_SIZE" by (simp add: foot)
  have z: "foot ! k = 0" if "k < GBA_FOOTER_OFFSET" for k
    using that by (simp add: foot nth_append)
  show "parse_trainer_info [(0, foot)] n
           = Some \<lparr>game = RUBY, region = US, trainer_id = 0, secret_id = 0, play_time_h = 0,
                   play_time_m = 0, play_time_s = 0, money = 0, badges = 0, slot_used = n\<rparr>"
    by (simp add: parse_trainer_info_def detect_game_def unpack_le16_def unpack_le32_def
                  index_def le16_def le32_def fl z count_ones_0)
  show "parse_party cbrt [(0, foot)] = \<lparr>pokemon = [], count = 0\<rparr>"
    by (simp add: parse_party_def)
  show "parse_pc_boxes cbrt [(0, foot)] = []"
    by (simp add: parse_pc_boxes_def upt_conv_Cons)
qed

text \<open>
  C6. A section whose footer id is above 13 is skipped and the loop goes on with the
  slot it has built so far; a slot is invalid exactly when none of its sections in the
  buffer has an id of at most 13; with one valid slot the selector returns that one and
  the save is decoded from it; with no valid slot the parse fails as a whole.
\<close>

theorem slot_validity:
  "(offset + i * GBA_SECTION_SIZE + GBA_SECTION_SIZE \<le> length data \<and>
    section_id_of (slot_section data offset i) > 13 \<longrightarrow>
      parse_slot_loop data offset (i # rest) acc = parse_slot_loop data offset rest acc) \<and>
   (parse_slot data offset = None \<longleftrightarrow>
      (\<forall>i<GBA_SECTION_COUNT. offset + i * GBA_SECTION_SIZE + GBA_SECTION_SIZE \<le> length data \<longrightarrow>
         section_id_of (slot_section data offset i) > 13)) \<and>
   pick_best_slot (Some a) None = Some (SlotA, a) \<and>
   pick_best_slot None (Some b) = Some (SlotB, b) \<and>
   pick_best_slot None None = None \<and>
   (GBA_SLOT_SIZE \<le> length data \<and> parse_slot data 0 = None \<and>
    (GBA_SAVE_SIZE \<le> length data \<longrightarrow> parse_slot data GBA_SLOT_SIZE = None) \<longrightarrow>
      parse_save_data cbrt data = Inl NoValidSlot) \<and>
   (GBA_SLOT_SIZE \<le> length data \<and> parse_slot data 0 = Some a \<and>
    (GBA_SAVE_SIZE \<le> length data \<longrightarrow> parse_slot data GBA_SLOT_SIZE = None) \<longrightarrow>
      parse_save_data cbrt data
        = (case parse_trainer_info a 0 of
             None \<Rightarrow> Inl NoTrainerInfo
           | Some trainer \<Rightarrow>
               Inr \<lparr>info = trainer, party = parse_party cbrt a, boxes = parse_pc_boxes cbrt a\<rparr>)) \<and>
   (GBA_SAVE_SIZE \<le> length data \<and> parse_slot data 0 = None \<and>
    parse_slot data GBA_SLOT_SIZE = Some b \<longrightarrow>
      parse_save_data cbrt data
        = (case parse_trainer_info b 1 of
             None \<Rightarrow> Inl NoTrainerInfo
           | Some trainer \<Rightarrow>
               Inr \<lparr>info = trainer, party = parse_party cbrt b, boxes = parse_pc_boxes cbrt b\<rparr>))"
proof (intro conjI impI)
  show "parse_slot_loop data offset (i # rest) acc = parse_slot_loop data offset rest acc"
    if "offset + i * GBA_SECTION_SIZE + GBA_SECTION_SIZE \<le> length data \<and>
        section_id_of (slot_section data offset i) > 13"
    using that by (simp add: Let_def slot_section_def section_id_of_def)
  show "parse_slot data offset = None \<longleftrightarrow>
      (\<forall>i<GBA_SECTION_COUNT. offset + i * GBA_SECTION_SIZE + GBA_SECTION_SIZE \<le> length data \<longrightarrow>
         section_id_of (slot_section data offset i) > 13)"
    by (rule parse_slot_None)
  show "pick_best_slot (Some a) None = Some (SlotA, a)"
    "pick_best_slot None (Some b) = Some (SlotB, b)"
    "pick_best_slot None None = None"
    by (simp_all add: pick_best_slot_def)
  show "parse_save_data cbrt data = Inl NoValidSlot"
    if "GBA_SLOT_SIZE \<le> length data \<and> parse_slot data 0 = None \<and>
        (GBA_SAVE_SIZE \<le> length data \<longrightarrow> parse_slot data GBA_SLOT_SIZE = None)"
    using that by (intro parse_save_data_no_slot) simp_all
  show "parse_save_data cbrt data
        = (case parse_trainer_info a 0 of
             None \<Rightarrow> Inl NoTrainerInfo
           | Some trainer \<Rightarrow>
               Inr \<lparr>info = trainer, party = parse_party cbrt a, boxes = parse_pc_boxes cbrt a\<rparr>)"
    if "GBA_SLOT_SIZE \<le> length data \<and> parse_slot data 0 = Some a \<and>
        (GBA_SAVE_SIZE \<le> length data \<longrightarrow> parse_slot data GBA_SLOT_SIZE = None)"
    using that by (intro parse_save_data_slot_a) simp_all
  show "parse_save_data cbrt data
        = (case parse_trainer_info b 1 of
             None \<Rightarrow> Inl NoTrainerInfo
           | Some trainer \<Rightarrow>
               Inr \<lparr>info = trainer, party = parse_party cbrt b, boxes = parse_pc_boxes cbrt b\<rparr>)"
    if "GBA_SAVE_SIZE \<le> length data \<and> parse_slot data 0 = None \<and>
        parse_slot data GBA_SLOT_SIZE = Some b"
    using that by (intro parse_save_data_slot_b) simp_all
qed

text \<open>
  Two images. In the first every footer id of the one slot is \<open>0xFFFF\<close>: no valid slot.
  In the second, of two slots, the first is such a slot and the second holds one valid
  section, section 0, with save index 3: the save is decoded from the second slot.
\<close>

theorem slot_validity_witness:
  "parse_save_data (\<lambda>_. 0) (replicate GBA_SLOT_SIZE 0xFF) = Inl NoValidSlot \<and>
   parse_save_data (\<lambda>_. 0)
       (replicate GBA_SLOT_SIZE 0xFF
          @ (replicate GBA_FOOTER_OFFSET 0 @ [0, 0, 0, 0, 3, 0, 0, 0])
          @ replicate 0x11000 0xFF)
     = Inr \<lparr>info = \<lparr>game = RUBY, region = US, trainer_id = 0, secret_id = 0, play_time_h = 0,
                     play_time_m = 0, play_time_s = 0, money = 0, badges = 0, slot_used = 1\<rparr>,
            party = \<lparr>pokemon = [], count = 0\<rparr>, boxes = []\<rparr>"
proof -
  define foot :: bytes where "foot = replicate GBA_FOOTER_OFFSET 0 @ [0, 0, 0, 0, 3, 0, 0, 0]"
  define d :: bytes where "d = replicate GBA_SLOT_SIZE 0xFF @ foot @ replicate 0x11000 0xFF"
  note img = two_slot_image [OF foot_def d_def]
  note sec = zero_section_contents [OF foot_def]
  have one: "parse_save_data (\<lambda>_. 0) (replicate GBA_SLOT_SIZE 0xFF) = Inl NoValidSlot"
    using slot_validity [where data = "replicate GBA_SLOT_SIZE 0xFF" and cbrt = "\<lambda>_. 0",
                         THEN conjunct2, THEN conjunct2, THEN conjunct2, THEN conjunct2,
                         THEN conjunct2, THEN conjunct1]
          parse_slot_all_ff
    by simp
  have "GBA_SAVE_SIZE \<le> length d \<and> parse_slot d 0 = None \<and>
        parse_slot d GBA_SLOT_SIZE = Some [(0, foot)]"
    using img by simp
  from slot_validity [where data = d and cbrt = "\<lambda>_. 0" and b = "[(0, foot)]",
                      THEN conjunct2, THEN conjunct2, THEN conjunct2, THEN conjunct2,
                      THEN conjunct2, THEN conjunct2, THEN conjunct2, THEN mp, OF this]
  have two: "parse_save_data (\<lambda>_. 0) d
     = Inr \<lparr>info = \<lparr>game = RUBY, region = US, trainer_id = 0, secret_id = 0, play_time_h = 0,
                     play_time_m = 0, play_time_s = 0, money = 0, badges = 0, slot_used = 1\<rparr>,
            party = \<lparr>pokemon = [], count = 0\<rparr>, boxes = []\<rparr>"
    by (simp add: sec)
  from one two show ?thesis unfolding d_def foot_def by (simp only: simp_thms)
qed

section \<open>The party (C9)\<close>

lemma party_in_range:
  "PARTY_DATA_OFFSET + i * PK3_SIZE + PK3_SIZE \<le> length sec
     \<longleftrightarrow> i < (length sec - PARTY_DATA_OFFSET) div PK3_SIZE"
proof -
  have "i < (length sec - PARTY_DATA_OFFSET) div PK3_SIZE
          \<longleftrightarrow> Suc i \<le> (length sec - PARTY_DATA_OFFSET) div PK3_SIZE" by auto
  also have "\<dots> \<longleftrightarrow> Suc i * PK3_SIZE \<le> length sec - PARTY_DATA_OFFSET"
    by (simp only: less_eq_div_iff_mult_less_eq [OF zero_less_numeral])
  also have "\<dots> \<longleftrightarrow> PARTY_DATA_OFFSET + i * PK3_SIZE + PK3_SIZE \<le> length sec"
    by auto
  finally show ?thesis by simp
qed

lemma party_loop_append:
  "\<forall>i\<in>set xs. PARTY_DATA_OFFSET + i * PK3_SIZE + PK3_SIZE \<le> length sec \<Longrightarrow>
   party_loop cbrt sec (xs @ ys) acc = party_loop cbrt sec ys (party_loop cbrt sec xs acc)"
  by (induction xs arbitrary: acc) (simp_all add: Let_def split: option.split)

lemma party_loop_break:
  "ys = [] \<or> PARTY_DATA_OFFSET + hd ys * PK3_SIZE + PK3_SIZE > length sec \<Longrightarrow>
   party_loop cbrt sec ys acc = acc"
  by (cases ys) (auto simp: Let_def)

lemma party_loop_members:
  "\<forall>i\<in>set xs. PARTY_DATA_OFFSET + i * PK3_SIZE + PK3_SIZE \<le> length sec \<Longrightarrow>
   party_loop cbrt sec xs acc
     = acc @ List.map_filter (\<lambda>i. party_member cbrt (party_window sec i)) xs"
  by (induction xs arbitrary: acc)
     (simp_all add: Let_def List.map_filter_simps party_member_def party_window_def
               split: option.split)

lemma party_loop_prefix:
  "party_loop cbrt sec [0..<c] acc
     = party_loop cbrt sec [0..<min c ((length sec - PARTY_DATA_OFFSET) div PK3_SIZE)] acc"
proof -
  define n where "n = min c ((length sec - PARTY_DATA_OFFSET) div PK3_SIZE)"
  have nc: "n \<le> c" by (simp add: n_def)
  have "[0..<n + (c - n)] = [0..<n] @ [n..<n + (c - n)]"
    by (rule upt_add_eq_append) simp
  then have split: "[0..<c] = [0..<n] @ [n..<c]" using nc by simp
  have inr: "\<forall>i\<in>set [0..<n]. PARTY_DATA_OFFSET + i * PK3_SIZE + PK3_SIZE \<le> length sec"
  proof
    fix i assume "i \<in> set [0..<n]"
    then have "i < (length sec - PARTY_DATA_OFFSET) div PK3_SIZE" by (simp add: n_def)
    then show "PARTY_DATA_OFFSET + i * PK3_SIZE + PK3_SIZE \<le> length sec"
      by (simp only: party_in_range)
  qed
  have brk: "[n..<c] = [] \<or> PARTY_DATA_OFFSET + hd [n..<c] * PK3_SIZE + PK3_SIZE > length sec"
  proof (cases "n < c")
    case True
    then have n: "n = (length sec - PARTY_DATA_OFFSET) div PK3_SIZE" by (simp add: n_def)
    have "hd [n..<c] = n" using True by (simp add: upt_conv_Cons)
    moreover have "\<not> PARTY_DATA_OFFSET + n * PK3_SIZE + PK3_SIZE \<le> length sec"
      unfolding party_in_range n by simp
    ultimately have "PARTY_DATA_OFFSET + hd [n..<c] * PK3_SIZE + PK3_SIZE > length sec"
      by (simp only: not_le)
    then show ?thesis by (rule disjI2)
  next
    case False
    then show ?thesis by simp
  qed
  show ?thesis
    unfolding split party_loop_append [OF inr] party_loop_break [OF brk]
    by (simp add: n_def)
qed

lemma party_loop_result:
  "party_loop cbrt sec [0..<c] []
     = List.map_filter (\<lambda>i. party_member cbrt (party_window sec i))
         [0..<min c ((length sec - PARTY_DATA_OFFSET) div PK3_SIZE)]"
proof -
  have inr: "\<forall>i\<in>set [0..<min c ((length sec - PARTY_DATA_OFFSET) div PK3_SIZE)].
               PARTY_DATA_OFFSET + i * PK3_SIZE + PK3_SIZE \<le> length sec"
  proof
    fix i assume "i \<in> set [0..<min c ((length sec - PARTY_DATA_OFFSET) div PK3_SIZE)]"
    then have "i < (length sec - PARTY_DATA_OFFSET) div PK3_SIZE" by simp
    then show "PARTY_DATA_OFFSET + i * PK3_SIZE + PK3_SIZE \<le> length sec"
      by (simp only: party_in_range)
  qed
  have "party_loop cbrt sec [0..<c] []
          = party_loop cbrt sec [0..<min c ((length sec - PARTY_DATA_OFFSET) div PK3_SIZE)] []"
    by (rule party_loop_prefix)
  also have "\<dots> = [] @ List.map_filter (\<lambda>i. party_member cbrt (party_window sec i))
                          [0..<min c ((length sec - PARTY_DATA_OFFSET) div PK3_SIZE)]"
    by (rule party_loop_members [OF inr])
  finally show ?thesis by simp
qed

lemma length_map_filter_le: "length (List.map_filter f xs) \<le> length xs"
  by (simp add: List.map_filter_def)

lemma party_count_range:
  "party_count sec = Some n \<Longrightarrow> 0 \<le> n \<and> n \<le> 6 \<and> n = max 0 (min 6 (uint (le32 sec PARTY_COUNT_OFFSET)))"
  by (auto simp: party_count_def unpack_le32_def split: if_splits)

lemma party_count_None: "party_count sec = None \<longleftrightarrow> length sec < PARTY_COUNT_OFFSET + 4"
  by (auto simp: party_count_def unpack_le32_def)

lemma parse_party_pokemon:
  assumes "map_of sections 1 = Some sec" "party_count sec = Some n"
  shows "pokemon (parse_party cbrt sections)
           = List.map_filter (\<lambda>i. party_member cbrt (party_window sec i))
               [0..<min (nat n) ((length sec - PARTY_DATA_OFFSET) div PK3_SIZE)]"
  using assms by (simp add: parse_party_def Let_def party_loop_result)

lemma parse_party_bound:
  "length (pokemon (parse_party cbrt sections)) \<le> 6 \<and>
   count (parse_party cbrt sections) = int (length (pokemon (parse_party cbrt sections)))"
proof (cases "map_of sections 1")
  case None
  then show ?thesis by (simp add: parse_party_def)
next
  case (Some sec)
  show ?thesis
  proof (cases "party_count sec")
    case None
    with Some show ?thesis by (simp add: parse_party_def)
  next
    case (Some n)
    from party_count_range [OF Some] have n: "nat n \<le> 6" by simp
    have "length (pokemon (parse_party cbrt sections))
            \<le> length [0..<min (nat n) ((length sec - PARTY_DATA_OFFSET) div PK3_SIZE)]"
      unfolding parse_party_pokemon [OF \<open>map_of sections 1 = Some sec\<close> Some]
      by (rule length_map_filter_le)
    also have "\<dots> \<le> 6" using n by simp
    finally have "length (pokemon (parse_party cbrt sections)) \<le> 6" .
    moreover have "count (parse_party cbrt sections)
                     = int (length (pokemon (parse_party cbrt sections)))"
      using Some \<open>map_of sections 1 = Some sec\<close> by (simp add: parse_party_def Let_def)
    ultimately show ?thesis by simp
  qed
qed

text \<open>
  C9. The stored count is read only if the section reaches the end of the count field
  and is clamped to 0..6 (a stored 9 gives 6). The party is what the records \<open>0\<close> to
  \<open>min count windows - 1\<close> decode to, where \<open>windows\<close> is the number of whole 100-byte
  windows the section holds from \<open>0x238\<close>: decoding stops at the first window that would
  end beyond the section, every window read lies inside the section and has its 100
  bytes, the party has at most 6 records and its count field is their number. A
  section without a readable count gives the empty party. The parser always returns a
  party: a short section is no error.
\<close>

theorem party_clamped_and_bounded:
  "(party_count sec = None \<longleftrightarrow> length sec < PARTY_COUNT_OFFSET + 4) \<and>
   (\<forall>n. party_count sec = Some n \<longrightarrow>
      0 \<le> n \<and> n \<le> 6 \<and> n = max 0 (min 6 (uint (le32 sec PARTY_COUNT_OFFSET)))) \<and>
   (PARTY_COUNT_OFFSET + 4 \<le> length sec \<and> le32 sec PARTY_COUNT_OFFSET = 9 \<longrightarrow>
      party_count sec = Some 6) \<and>
   length (pokemon (parse_party cbrt sections)) \<le> 6 \<and>
   count (parse_party cbrt sections) = int (length (pokemon (parse_party cbrt sections))) \<and>
   (map_of sections 1 = Some sec \<and> party_count sec = Some n \<longrightarrow>
      pokemon (parse_party cbrt sections)
        = List.map_filter (\<lambda>i. party_member cbrt (party_window sec i))
            [0..<min (nat n) ((length sec - PARTY_DATA_OFFSET) div PK3_SIZE)] \<and>
      (\<forall>i<min (nat n) ((length sec - PARTY_DATA_OFFSET) div PK3_SIZE).
         PARTY_DATA_OFFSET + i * PK3_SIZE + PK3_SIZE \<le> length sec \<and>
         length (party_window sec i) = PK3_SIZE)) \<and>
   (map_of sections 1 = None \<or> (map_of sections 1 = Some sec \<and> party_count sec = None) \<longrightarrow>
      parse_party cbrt sections = \<lparr>pokemon = [], count = 0\<rparr>)"
proof (intro conjI impI allI)
  show "party_count sec = None \<longleftrightarrow> length sec < PARTY_COUNT_OFFSET + 4"
    by (rule party_count_None)
  show "0 \<le> m" "m \<le> 6" "m = max 0 (min 6 (uint (le32 sec PARTY_COUNT_OFFSET)))"
    if "party_count sec = Some m" for m
    using party_count_range [OF that] by simp_all
  show "party_count sec = Some 6"
    if "PARTY_COUNT_OFFSET + 4 \<le> length sec \<and> le32 sec PARTY_COUNT_OFFSET = 9"
    using that by (simp add: party_count_def unpack_le32_def)
  show "length (pokemon (parse_party cbrt sections)) \<le> 6"
    "count (parse_party cbrt sections) = int (length (pokemon (parse_party cbrt sections)))"
    using parse_party_bound [of cbrt sections] by simp_all
  show "pokemon (parse_party cbrt sections)
        = List.map_filter (\<lambda>i. party_member cbrt (party_window sec i))
            [0..<min (nat n) ((length sec - PARTY_DATA_OFFSET) div PK3_SIZE)]"
    if "map_of sections 1 = Some sec \<and> party_count sec = Some n"
    using that by (intro parse_party_pokemon) simp_all
  show "PARTY_DATA_OFFSET + i * PK3_SIZE + PK3_SIZE \<le> length sec"
    if "i < min (nat n) ((length sec - PARTY_DATA_OFFSET) div PK3_SIZE)" for i
  proof -
    from that have "i < (length sec - PARTY_DATA_OFFSET) div PK3_SIZE" by simp
    then show ?thesis by (simp only: party_in_range)
  qed
  show "length (party_window sec i) = PK3_SIZE"
    if "i < min (nat n) ((length sec - PARTY_DATA_OFFSET) div PK3_SIZE)" for i
  proof -
    from that have "i < (length sec - PARTY_DATA_OFFSET) div PK3_SIZE" by simp
    then have "PARTY_DATA_OFFSET + i * PK3_SIZE + PK3_SIZE \<le> length sec"
      by (simp only: party_in_range)
    then show ?thesis by (simp add: party_window_def slice_def)
  qed
  show "parse_party cbrt sections = \<lparr>pokemon = [], count = 0\<rparr>"
    if "map_of sections 1 = None \<or> (map_of sections 1 = Some sec \<and> party_count sec = None)"
    using that by (auto simp: parse_party_def)
qed

text \<open>
  A section 1 cut off 150 bytes after the start of the party data, with a stored count
  of 9 and one record of species 386 (the sample record of C4, at full length): the count
  is clamped to 6, one window fits, and the party is that one record.
\<close>

theorem party_clamped_and_bounded_witness:
  "party_count (replicate PARTY_COUNT_OFFSET 0 @ [9, 0, 0, 0]
                  @ (replicate PK3_SIZE 0)[0 := 7, 4 := 1, 6 := 2, 44 := 0x84, 45 := 1]
                  @ replicate 50 0) = Some 6 \<and>
   (\<exists>p. pokemon (parse_party (\<lambda>_. 0)
                    [(1, replicate PARTY_COUNT_OFFSET 0 @ [9, 0, 0, 0]
                           @ (replicate PK3_SIZE 0)[0 := 7, 4 := 1, 6 := 2, 44 := 0x84, 45 := 1]
                           @ replicate 50 0)]) = [p] \<and>
        species_id p = 386)"
proof -
  define r :: bytes where "r = (replicate PK3_SIZE 0)[0 := 7, 4 := 1, 6 := 2, 44 := 0x84, 45 := 1]"
  define sec :: bytes where "sec = replicate PARTY_COUNT_OFFSET 0 @ [9, 0, 0, 0] @ r @ replicate 50 0"
  have rl: "length r = PK3_SIZE" by (simp add: r_def)
  have sl: "length sec = 718" by (simp add: sec_def rl)
  have cnt: "le32 sec PARTY_COUNT_OFFSET = 9" by (simp add: sec_def le32_def nth_append)
  have w: "party_window sec 0 = r" by (simp add: party_window_def slice_def sec_def rl)
  have sp: "pk3_species r = 386"
    unfolding r_def by (simp add: pk3_sample_species le16_def)
  obtain p where p: "parse_pk3 (\<lambda>_. 0) r = Some p"
    using parse_pk3_result(1) [of r "\<lambda>_. 0"] rl sp by (cases "parse_pk3 (\<lambda>_. 0) r") auto
  then have sid: "species_id p = 386"
    using parse_pk3_result(2) [of r "\<lambda>_. 0" p] rl sp by simp
  have m: "party_member (\<lambda>_. 0) (party_window sec 0) = Some p"
    unfolding w by (simp add: party_member_def p sid)
  note t = party_clamped_and_bounded [where sec = sec and sections = "[(1, sec)]"
                                        and cbrt = "\<lambda>_. 0" and n = 6]
  have h3: "PARTY_COUNT_OFFSET + 4 \<le> length sec \<and> le32 sec PARTY_COUNT_OFFSET = 9"
    unfolding sl cnt by simp
  have c6: "party_count sec = Some 6"
    using t [THEN conjunct2, THEN conjunct2, THEN conjunct1, THEN mp, OF h3] .
  have h6: "map_of [(1 :: nat, sec)] 1 = Some sec \<and> party_count sec = Some 6"
    using c6 by simp
  have "pokemon (parse_party (\<lambda>_. 0) [(1, sec)])
        = List.map_filter (\<lambda>i. party_member (\<lambda>_. 0) (party_window sec i))
            [0..<min (nat 6) ((length sec - PARTY_DATA_OFFSET) div PK3_SIZE)]"
    using t [THEN conjunct2, THEN conjunct2, THEN conjunct2, THEN conjunct2, THEN conjunct2,
             THEN conjunct1, THEN mp, OF h6, THEN conjunct1] .
  also have "min (nat 6) ((length sec - PARTY_DATA_OFFSET) div PK3_SIZE) = 1"
    unfolding sl by simp
  also have "List.map_filter (\<lambda>i. party_member (\<lambda>_. 0) (party_window sec i)) [0..<1] = [p]"
    by (simp add: List.map_filter_simps m)
  finally have one: "pokemon (parse_party (\<lambda>_. 0) [(1, sec)]) = [p]" .
  have "\<exists>p. pokemon (parse_party (\<lambda>_. 0) [(1, sec)]) = [p] \<and> species_id p = 386"
    using one sid by (intro exI [of _ p]) simp
  with c6 show ?thesis unfolding sec_def r_def by (simp only: simp_thms)
qed

section \<open>The compatibility rules on decoded records (C1)\<close>







end
